theory Spec2Isabelle
  imports Main
begin

section \<open>The editing core of the DIRA terminal editor (main.c)\<close>

text \<open>
  A shallow embedding of the gap buffer, the coordinate mapper, the undo/redo history, the
  selection and clipboard and the highlight classifier of \<^verbatim>\<open>main.c\<close>.

  Conventions.
  \<^item> A C \<^verbatim>\<open>int\<close> is a mathematical \<open>int\<close>: the editor's sizes and positions stay far
    below \<open>2^31\<close> and signed overflow is undefined in C, so no wrap-around is modelled.
  \<^item> A \<^verbatim>\<open>char\<close> array is a \<open>string\<close> (a list of bytes); an index is converted with
    \<open>nat\<close>. For a buffer that satisfies \<open>gap_ok\<close> below (the structural invariant, with
    \<open>buf\<close> an allocation of \<open>cap\<close> bytes) every access of the accessors and of \<open>gap_move\<close>
    is in range, and so is the write of \<open>gap_insert\<close> when the gap is not empty or the
    capacity is at least two. Outside these conditions C has no defined behaviour; the
    theorems below are stated under them, or at concrete inputs whose accesses are in range.
  \<^item> The globals \<^verbatim>\<open>E\<close> and \<^verbatim>\<open>g\<close> are passed and returned explicitly.
\<close>

subsection \<open>Data\<close>

datatype editorHighlight = HL_NORMAL | HL_KEYWORD | HL_STRING | HL_COMMENT | HL_NUMBER

datatype editType = EDIT_INSERT | EDIT_DELETE | EDIT_INSERT_NEWLINE | EDIT_DELETE_NEWLINE

text \<open>A \<^verbatim>\<open>struct edit\<close>; the \<^verbatim>\<open>next\<close>/\<^verbatim>\<open>prev\<close> links are the list structure of a stack.\<close>

record edit =
  edit_type :: editType
  edit_pos :: int
  edit_ch :: char

record editHistory =
  undoStack :: "edit list"
  redoStack :: "edit list"
  grouping :: int

record selection =
  active :: int
  start_row :: int
  start_col :: int
  end_row :: int
  end_col :: int

text \<open>A \<^verbatim>\<open>struct clipboard\<close>; \<open>None\<close> is the \<^verbatim>\<open>NULL\<close> data pointer.\<close>

record clipboard =
  clip_data :: "string option"
  clip_len :: int

record gapbuf =
  buf :: string
  cap :: int
  gap_start :: int
  gap_end :: int

text \<open>The fields of \<^verbatim>\<open>struct editorConfig E\<close> that the core uses, and the global buffer \<^verbatim>\<open>g\<close>.\<close>

record editorConfig =
  cx :: int
  cy :: int
  dirty :: int
  history :: editHistory
  sel :: selection
  clip :: clipboard
  gbuf :: gapbuf

subsection \<open>Memory primitives\<close>

text \<open>
  \<^verbatim>\<open>memcpy(dst + d, src + s, n)\<close> and \<^verbatim>\<open>memmove\<close> (the source is read before the
  destination is written, so the same function serves for overlapping ranges).
  \<^verbatim>\<open>malloc(n)\<close> returns \<open>n\<close> bytes of unspecified content, modelled as zero bytes.
\<close>

definition mem_copy :: "string \<Rightarrow> nat \<Rightarrow> string \<Rightarrow> nat \<Rightarrow> nat \<Rightarrow> string" where
  "mem_copy dst d src s n = take d dst @ take n (drop s src) @ drop (d + n) dst"

definition malloc :: "int \<Rightarrow> string" where
  "malloc n = replicate (nat n) (CHR 0x00)"

text \<open>C's integer division by two truncates towards zero.\<close>

definition c_div2 :: "int \<Rightarrow> int" where
  "c_div2 a = (if a < 0 then - ((- a) div 2) else a div 2)"

subsection \<open>Gap buffer\<close>

definition gap_init :: "int \<Rightarrow> gapbuf" where
  "gap_init initial_cap =
     (let c = (if initial_cap > 0 then initial_cap else 1024)
      in \<lparr>buf = malloc c, cap = c, gap_start = 0, gap_end = c\<rparr>)"

definition gap_length :: "gapbuf \<Rightarrow> int" where
  "gap_length g = cap g - (gap_end g - gap_start g)"

definition gap_move :: "gapbuf \<Rightarrow> int \<Rightarrow> gapbuf" where
  "gap_move g pos0 =
     (let pos1 = (if pos0 < 0 then 0 else pos0);
          len = gap_length g;
          pos = (if pos1 > len then len else pos1)
      in if pos < gap_start g then
           (let move_len = gap_start g - pos;
                ge = gap_end g - move_len
            in g\<lparr>buf := mem_copy (buf g) (nat ge) (buf g) (nat pos) (nat move_len),
                 gap_start := pos, gap_end := ge\<rparr>)
         else if pos > gap_start g then
           (let move_len = pos - gap_start g
            in g\<lparr>buf := mem_copy (buf g) (nat (gap_start g)) (buf g) (nat (gap_end g)) (nat move_len),
                 gap_start := gap_start g + move_len, gap_end := gap_end g + move_len\<rparr>)
         else g)"

definition gap_grow :: "gapbuf \<Rightarrow> gapbuf" where
  "gap_grow g =
     (let gap_size = c_div2 (cap g);
          newcap = cap g + gap_size;
          nb = malloc newcap;
          prefix = gap_start g;
          suffix = cap g - gap_end g;
          nb1 = (if prefix \<noteq> 0 then mem_copy nb 0 (buf g) 0 (nat prefix) else nb);
          nb2 = (if suffix \<noteq> 0
                 then mem_copy nb1 (nat (newcap - suffix)) (buf g) (nat (gap_end g)) (nat suffix)
                 else nb1)
      in g\<lparr>buf := nb2, cap := newcap, gap_end := newcap - suffix\<rparr>)"

text \<open>\<^verbatim>\<open>gap_insert\<close>: the body of the \<^verbatim>\<open>if (gap_start == gap_end)\<close> block is \<open>gap_grow\<close>.\<close>

definition gap_insert :: "gapbuf \<Rightarrow> char \<Rightarrow> gapbuf" where
  "gap_insert g c =
     (let g1 = (if gap_start g = gap_end g then gap_grow g else g)
      in g1\<lparr>buf := (buf g1)[nat (gap_start g1) := c], gap_start := gap_start g1 + 1\<rparr>)"

definition gap_backspace :: "gapbuf \<Rightarrow> int \<times> gapbuf" where
  "gap_backspace g =
     (if gap_start g = 0 then (0, g) else (1, g\<lparr>gap_start := gap_start g - 1\<rparr>))"

definition gap_delete :: "gapbuf \<Rightarrow> int \<times> gapbuf" where
  "gap_delete g =
     (if gap_end g = cap g then (0, g) else (1, g\<lparr>gap_end := gap_end g + 1\<rparr>))"

text \<open>\<^verbatim>\<open>gap_get\<close> returns its result and the destination array \<open>out\<close> after the call.\<close>

definition gap_get :: "gapbuf \<Rightarrow> string \<Rightarrow> int \<Rightarrow> int \<times> string" where
  "gap_get g out outcap =
     (let len = gap_length g
      in if outcap < len then (- 1, out)
         else
           (let prefix = gap_start g;
                suffix = cap g - gap_end g;
                out1 = (if prefix \<noteq> 0 then mem_copy out 0 (buf g) 0 (nat prefix) else out);
                out2 = (if suffix \<noteq> 0
                        then mem_copy out1 (nat prefix) (buf g) (nat (gap_end g)) (nat suffix)
                        else out1)
            in (len, out2)))"

definition gap_char_at :: "gapbuf \<Rightarrow> int \<Rightarrow> char" where
  "gap_char_at g pos =
     (if pos < 0 \<or> pos \<ge> gap_length g then CHR 0x00
      else if pos < gap_start g then buf g ! nat pos
      else buf g ! nat (gap_end g + (pos - gap_start g)))"

subsection \<open>Undo/redo history\<close>

definition history_init :: "editHistory" where
  "history_init = \<lparr>undoStack = [], redoStack = [], grouping = 0\<rparr>"

definition history_push :: "editHistory \<Rightarrow> editType \<Rightarrow> int \<Rightarrow> char \<Rightarrow> editHistory" where
  "history_push h t p c =
     h\<lparr>undoStack := \<lparr>edit_type = t, edit_pos = p, edit_ch = c\<rparr> # undoStack h,
       redoStack := []\<rparr>"

text \<open>
  \<^verbatim>\<open>history_undo\<close> and \<^verbatim>\<open>history_redo\<close> act on the history and on the global buffer; the
  result of \<^verbatim>\<open>gap_delete\<close> is discarded as in the source.
\<close>

definition history_undo :: "editHistory \<Rightarrow> gapbuf \<Rightarrow> int \<times> editHistory \<times> gapbuf" where
  "history_undo h g =
     (case undoStack h of
        [] \<Rightarrow> (0, h, g)
      | e # rest \<Rightarrow>
          (let h1 = h\<lparr>undoStack := rest, redoStack := e # redoStack h\<rparr>;
               g1 = gap_move g (edit_pos e);
               g2 = (case edit_type e of
                       EDIT_INSERT \<Rightarrow> snd (gap_delete g1)
                     | EDIT_DELETE \<Rightarrow> gap_insert g1 (edit_ch e)
                     | EDIT_INSERT_NEWLINE \<Rightarrow> snd (gap_delete g1)
                     | EDIT_DELETE_NEWLINE \<Rightarrow> gap_insert g1 (CHR 0x0A))
           in (1, h1, g2)))"

definition history_redo :: "editHistory \<Rightarrow> gapbuf \<Rightarrow> int \<times> editHistory \<times> gapbuf" where
  "history_redo h g =
     (case redoStack h of
        [] \<Rightarrow> (0, h, g)
      | e # rest \<Rightarrow>
          (let h1 = h\<lparr>redoStack := rest, undoStack := e # undoStack h\<rparr>;
               g1 = gap_move g (edit_pos e);
               g2 = (case edit_type e of
                       EDIT_INSERT \<Rightarrow> gap_insert g1 (edit_ch e)
                     | EDIT_DELETE \<Rightarrow> snd (gap_delete g1)
                     | EDIT_INSERT_NEWLINE \<Rightarrow> gap_insert g1 (CHR 0x0A)
                     | EDIT_DELETE_NEWLINE \<Rightarrow> snd (gap_delete g1))
           in (1, h1, g2)))"

subsection \<open>Selection\<close>

definition selection_start :: "selection \<Rightarrow> int \<Rightarrow> int \<Rightarrow> selection" where
  "selection_start s row col =
     s\<lparr>active := 1, start_row := row, end_row := row, start_col := col, end_col := col\<rparr>"

definition selection_update :: "selection \<Rightarrow> int \<Rightarrow> int \<Rightarrow> selection" where
  "selection_update s row col = s\<lparr>end_row := row, end_col := col\<rparr>"

definition selection_clear :: "selection \<Rightarrow> selection" where
  "selection_clear s = s\<lparr>active := 0\<rparr>"

definition selection_contains :: "selection \<Rightarrow> int \<Rightarrow> int \<Rightarrow> bool" where
  "selection_contains s row col =
     (if active s = 0 then False
      else
        (let sr0 = start_row s; sc0 = start_col s; er0 = end_row s; ec0 = end_col s;
             swap = (sr0 > er0 \<or> (sr0 = er0 \<and> sc0 > ec0));
             sr = (if swap then er0 else sr0);
             er = (if swap then sr0 else er0);
             sc = (if swap then ec0 else sc0);
             ec = (if swap then sc0 else ec0)
         in if row < sr \<or> row > er then False
            else if row = sr \<and> row = er then col \<ge> sc \<and> col < ec
            else if row = sr then col \<ge> sc
            else if row = er then col < ec
            else True))"

subsection \<open>Coordinate mapper\<close>

text \<open>The \<^verbatim>\<open>for\<close> loop of \<^verbatim>\<open>pos_to_rowcol\<close>, from index \<open>i\<close> with the current \<open>row\<close> and \<open>col\<close>.\<close>

function pos_to_rowcol_loop :: "gapbuf \<Rightarrow> int \<Rightarrow> int \<Rightarrow> int \<Rightarrow> int \<Rightarrow> int \<times> int" where
  "pos_to_rowcol_loop g pos i row col =
     (if i < pos then
        (if gap_char_at g i = CHR 0x0A then pos_to_rowcol_loop g pos (i + 1) (row + 1) 0
         else pos_to_rowcol_loop g pos (i + 1) row (col + 1))
      else (row, col))"
  by pat_completeness auto
termination
  by (relation "measure (\<lambda>(g, pos, i, row, col). nat (pos - i))") auto

definition pos_to_rowcol :: "gapbuf \<Rightarrow> int \<Rightarrow> int \<times> int" where
  "pos_to_rowcol g pos = pos_to_rowcol_loop g pos 0 0 0"

text \<open>The first \<^verbatim>\<open>while\<close> loop of \<^verbatim>\<open>rowcol_to_pos\<close>: advance to the target row.\<close>

function rowcol_to_pos_rows :: "gapbuf \<Rightarrow> int \<Rightarrow> int \<Rightarrow> int \<Rightarrow> int \<Rightarrow> int \<Rightarrow> int \<times> int \<times> int" where
  "rowcol_to_pos_rows g row len pos cur_row cur_col =
     (if pos < len \<and> cur_row < row then
        (if gap_char_at g pos = CHR 0x0A then rowcol_to_pos_rows g row len (pos + 1) (cur_row + 1) 0
         else rowcol_to_pos_rows g row len (pos + 1) cur_row (cur_col + 1))
      else (pos, cur_row, cur_col))"
  by pat_completeness auto
termination
  by (relation "measure (\<lambda>(g, row, len, pos, cur_row, cur_col). nat (len - pos))") auto

text \<open>The second loop: advance within the row, stopping at a line feed (\<^verbatim>\<open>break\<close>).\<close>

function rowcol_to_pos_cols :: "gapbuf \<Rightarrow> int \<Rightarrow> int \<Rightarrow> int \<Rightarrow> int \<Rightarrow> int" where
  "rowcol_to_pos_cols g col len pos cur_col =
     (if pos < len \<and> cur_col < col then
        (if gap_char_at g pos = CHR 0x0A then pos
         else rowcol_to_pos_cols g col len (pos + 1) (cur_col + 1))
      else pos)"
  by pat_completeness auto
termination
  by (relation "measure (\<lambda>(g, col, len, pos, cur_col). nat (len - pos))") auto

definition rowcol_to_pos :: "gapbuf \<Rightarrow> int \<Rightarrow> int \<Rightarrow> int" where
  "rowcol_to_pos g row col =
     (let len = gap_length g
      in case rowcol_to_pos_rows g row len 0 0 0 of
           (pos, cur_row, cur_col) \<Rightarrow> rowcol_to_pos_cols g col len pos cur_col)"

function get_line_length_loop :: "gapbuf \<Rightarrow> int \<Rightarrow> int \<Rightarrow> int \<Rightarrow> int" where
  "get_line_length_loop g len pos line_len =
     (if pos < len then
        (if gap_char_at g pos = CHR 0x0A then line_len
         else get_line_length_loop g len (pos + 1) (line_len + 1))
      else line_len)"
  by pat_completeness auto
termination
  by (relation "measure (\<lambda>(g, len, pos, line_len). nat (len - pos))") auto

definition get_line_length :: "gapbuf \<Rightarrow> int \<Rightarrow> int" where
  "get_line_length g row = get_line_length_loop g (gap_length g) (rowcol_to_pos g row 0) 0"

function count_rows_loop :: "gapbuf \<Rightarrow> int \<Rightarrow> int \<Rightarrow> int \<Rightarrow> int" where
  "count_rows_loop g len i rows =
     (if i < len then
        count_rows_loop g len (i + 1) (if gap_char_at g i = CHR 0x0A then rows + 1 else rows)
      else rows)"
  by pat_completeness auto
termination
  by (relation "measure (\<lambda>(g, len, i, rows). nat (len - i))") auto

definition count_rows :: "gapbuf \<Rightarrow> int" where
  "count_rows g = count_rows_loop g (gap_length g) 0 1"

subsection \<open>Editing operations\<close>

definition editorInsertChar :: "char \<Rightarrow> editorConfig \<Rightarrow> editorConfig" where
  "editorInsertChar c E =
     (let pos = rowcol_to_pos (gbuf E) (cy E) (cx E);
          g1 = gap_move (gbuf E) pos;
          g2 = gap_insert g1 c;
          h = history_push (history E) EDIT_INSERT pos c
      in E\<lparr>gbuf := g2, history := h, cx := cx E + 1, dirty := 1\<rparr>)"

text \<open>The \<^verbatim>\<open>for\<close> loop of \<^verbatim>\<open>clipboard_paste\<close> over the clipboard bytes \<open>d\<close>, from index \<open>i\<close>.\<close>

function clipboard_paste_loop ::
  "string \<Rightarrow> int \<Rightarrow> int \<Rightarrow> int \<Rightarrow> editHistory \<Rightarrow> gapbuf \<Rightarrow> editHistory \<times> gapbuf" where
  "clipboard_paste_loop d n pos i h g =
     (if i < n then
        clipboard_paste_loop d n pos (i + 1)
          (history_push h EDIT_INSERT (pos + i) (d ! nat i)) (gap_insert g (d ! nat i))
      else (h, g))"
  by pat_completeness auto
termination
  by (relation "measure (\<lambda>(d, n, pos, i, h, g). nat (n - i))") auto

definition clipboard_paste :: "clipboard \<Rightarrow> editorConfig \<Rightarrow> editorConfig" where
  "clipboard_paste cl E =
     (case clip_data cl of
        None \<Rightarrow> E
      | Some d \<Rightarrow>
          if clip_len cl = 0 then E
          else
            (let pos = rowcol_to_pos (gbuf E) (cy E) (cx E);
                 g1 = gap_move (gbuf E) pos
             in case clipboard_paste_loop d (clip_len cl) pos 0 (history E) g1 of
                  (h, g2) \<Rightarrow> E\<lparr>gbuf := g2, history := h, dirty := 1\<rparr>))"

text \<open>The Ctrl-Z and Ctrl-Y branches of \<^verbatim>\<open>editorProcessKeypress\<close>.\<close>

definition keypress_undo :: "editorConfig \<Rightarrow> editorConfig" where
  "keypress_undo E =
     (case history_undo (history E) (gbuf E) of
        (r, h, g) \<Rightarrow>
          (let E1 = E\<lparr>history := h, gbuf := g\<rparr>;
               E2 = (if r \<noteq> 0
                     then (case pos_to_rowcol g (gap_start g) of
                             (row, col) \<Rightarrow> E1\<lparr>cy := row, cx := col, dirty := 1\<rparr>)
                     else E1)
           in E2\<lparr>sel := selection_clear (sel E2)\<rparr>))"

definition keypress_redo :: "editorConfig \<Rightarrow> editorConfig" where
  "keypress_redo E =
     (case history_redo (history E) (gbuf E) of
        (r, h, g) \<Rightarrow>
          (let E1 = E\<lparr>history := h, gbuf := g\<rparr>;
               E2 = (if r \<noteq> 0
                     then (case pos_to_rowcol g (gap_start g) of
                             (row, col) \<Rightarrow> E1\<lparr>cy := row, cx := col, dirty := 1\<rparr>)
                     else E1)
           in E2\<lparr>sel := selection_clear (sel E2)\<rparr>))"

subsection \<open>Highlight classifier\<close>

definition c_isspace :: "char \<Rightarrow> bool" where
  "c_isspace c = (c \<in> set [CHR 0x20, CHR 0x09, CHR 0x0A, CHR 0x0B, CHR 0x0C, CHR 0x0D])"

definition c_isdigit :: "char \<Rightarrow> bool" where
  "c_isdigit c = (c \<in> set ''0123456789'')"

text \<open>\<^verbatim>\<open>strchr(s, c) != NULL\<close> also holds for the terminating NUL of the literal.\<close>

definition is_separator :: "char \<Rightarrow> bool" where
  "is_separator c = (c_isspace c \<or> c = CHR 0x00 \<or> c \<in> set '',.()+-/*=~%<>[];'' \<or> c = CHR 0x00)"

text \<open>\<^verbatim>\<open>strrchr\<close>: the suffix from the last occurrence of \<open>c\<close>, \<open>None\<close> for \<^verbatim>\<open>NULL\<close>.\<close>

fun strrchr :: "string \<Rightarrow> char \<Rightarrow> string option" where
  "strrchr [] c = None"
| "strrchr (x # xs) c =
     (case strrchr xs c of
        Some r \<Rightarrow> Some r
      | None \<Rightarrow> if x = c then Some (x # xs) else None)"

definition hl_keywords :: "string list" where
  "hl_keywords =
     [''if'', ''else'', ''while'', ''for'', ''return'', ''int'', ''char'', ''void'',
      ''struct'', ''enum'', ''static'', ''const'', ''break'', ''continue'', ''switch'',
      ''case'', ''default'', ''sizeof'', ''typedef'']"

text \<open>The keyword loop of \<^verbatim>\<open>get_highlight\<close>: \<open>True\<close> when some iteration returns \<^verbatim>\<open>HL_KEYWORD\<close>.\<close>

fun keyword_loop :: "string \<Rightarrow> int \<Rightarrow> int \<Rightarrow> string list \<Rightarrow> bool" where
  "keyword_loop content len pos [] = False"
| "keyword_loop content len pos (kw # kws) =
     (let klen = int (length kw)
      in if pos + klen \<le> len \<and> take (nat klen) (drop (nat pos) content) = kw
            \<and> (pos + klen \<ge> len \<or> is_separator (content ! nat (pos + klen)))
            \<and> (pos = 0 \<or> is_separator (content ! nat (pos - 1)))
         then True
         else keyword_loop content len pos kws)"

definition is_c_file :: "string option \<Rightarrow> bool" where
  "is_c_file filename =
     (case filename of
        None \<Rightarrow> False
      | Some f \<Rightarrow>
          (case strrchr f (CHR ''.'') of
             None \<Rightarrow> False
           | Some ext \<Rightarrow> ext = ''.c'' \<or> ext = ''.h'' \<or> ext = ''.cpp'' \<or> ext = ''.cc''))"

text \<open>
  \<^verbatim>\<open>get_highlight\<close>. The function-local \<^verbatim>\<open>static int in_string\<close> is passed in and returned
  with the class.
\<close>

definition get_highlight ::
  "string \<Rightarrow> int \<Rightarrow> int \<Rightarrow> string option \<Rightarrow> bool \<Rightarrow> editorHighlight \<times> bool" where
  "get_highlight content len pos filename in_string =
     (if pos \<ge> len then (HL_NORMAL, in_string)
      else if \<not> is_c_file filename then (HL_NORMAL, in_string)
      else
        (let c = content ! nat pos
         in if pos + 1 < len \<and> content ! nat pos = CHR ''/'' \<and> content ! nat (pos + 1) = CHR ''/''
            then (HL_COMMENT, in_string)
            else if c_isdigit c \<and> (pos = 0 \<or> is_separator (content ! nat (pos - 1)))
            then (HL_NUMBER, in_string)
            else
              (let in_string1 = (if c = CHR 0x22 then \<not> in_string else in_string)
               in if in_string1 then (HL_STRING, in_string1)
                  else if keyword_loop content len pos hl_keywords then (HL_KEYWORD, in_string1)
                  else (HL_NORMAL, in_string1))))"

subsection \<open>Invariants and the logical content\<close>

text \<open>The structural invariant of the gap buffer, as the specification states it.\<close>

definition gap_inv :: "gapbuf \<Rightarrow> bool" where
  "gap_inv g = (0 \<le> gap_start g \<and> gap_start g \<le> gap_end g \<and> gap_end g \<le> cap g)"

text \<open>The invariant together with the fact that \<open>buf\<close> is an allocation of \<open>cap\<close> bytes.\<close>

definition gap_ok :: "gapbuf \<Rightarrow> bool" where
  "gap_ok g = (gap_inv g \<and> int (length (buf g)) = cap g)"

text \<open>The logical byte sequence, read through \<^verbatim>\<open>gap_char_at\<close> at the offsets \<open>0 .. L - 1\<close>.\<close>

definition gap_text :: "gapbuf \<Rightarrow> string" where
  "gap_text g = map (\<lambda>i. gap_char_at g (int i)) [0 ..< nat (gap_length g)]"

text \<open>The prefix followed by the suffix: what \<^verbatim>\<open>gap_get\<close> copies.\<close>

definition content :: "gapbuf \<Rightarrow> string" where
  "content g = take (nat (gap_start g)) (buf g) @ drop (nat (gap_end g)) (buf g)"

text \<open>The clamping of a requested position at the start of \<^verbatim>\<open>gap_move\<close>.\<close>

definition clamp_pos :: "gapbuf \<Rightarrow> int \<Rightarrow> int" where
  "clamp_pos g p = min (max 0 p) (gap_length g)"

text \<open>One iteration of the row/column count: a line feed starts a new row.\<close>

definition rc_step :: "char \<Rightarrow> int \<times> int \<Rightarrow> int \<times> int" where
  "rc_step ch rc = (if ch = CHR 0x0A then (fst rc + 1, 0) else (fst rc, snd rc + 1))"

subsection \<open>Replaying insert records on a text\<close>

text \<open>
  What an \<^verbatim>\<open>EDIT_INSERT\<close> record means on the logical text, a list of records applied oldest
  first, and the condition that each record's position lies inside the text it is applied to.
  \<open>roomy\<close> is a well-formed buffer of at least two bytes of capacity, for which the growth
  step of \<open>gap_insert\<close> makes room (the editor allocates 1024).
\<close>

definition ins_at :: "string \<Rightarrow> edit \<Rightarrow> string" where
  "ins_at s e = take (nat (edit_pos e)) s @ edit_ch e # drop (nat (edit_pos e)) s"

fun replay :: "string \<Rightarrow> edit list \<Rightarrow> string" where
  "replay s [] = s"
| "replay s (e # es) = replay (ins_at s e) es"

fun chain_ok :: "string \<Rightarrow> edit list \<Rightarrow> bool" where
  "chain_ok s [] = True"
| "chain_ok s (e # es) =
     (edit_type e = EDIT_INSERT \<and> 0 \<le> edit_pos e \<and> edit_pos e \<le> int (length s)
      \<and> chain_ok (ins_at s e) es)"

definition roomy :: "gapbuf \<Rightarrow> bool" where
  "roomy g = (gap_ok g \<and> 2 \<le> cap g)"

section \<open>Gap buffer: representation lemmas\<close>

lemma mem_copy_left:
  assumes "p \<le> gs" "gs \<le> ge" "ge \<le> length B"
  defines "B' \<equiv> mem_copy B (ge - (gs - p)) B p (gs - p)"
  shows "length B' = length B"
    and "take p B' @ drop (ge - (gs - p)) B' = take gs B @ drop ge B"
proof -
  define m e where "m = gs - p" and "e = ge - m"
  define X Y Z where "X = take e B" and "Y = take m (drop p B)" and "Z = drop ge B"
  have e: "e + m = ge" "p \<le> e" "e \<le> length B" using assms(1-3) by (auto simp: m_def e_def)
  have B': "B' = X @ Y @ Z" by (simp add: B'_def mem_copy_def e(1) X_def Y_def Z_def m_def[symmetric] e_def[symmetric])
  have lx: "length X = e" using e(3) by (simp add: X_def)
  have ly: "length Y = m" using assms(1-3) by (simp add: Y_def m_def)
  have lz: "length Z = length B - ge" by (simp add: Z_def)
  show "length B' = length B" using e assms(3) by (simp add: B' lx ly lz)
  have "take p B' = take p X" using e(2) by (simp add: B' lx)
  also have "\<dots> = take p B" using e(2) by (simp add: X_def min_def)
  finally have t: "take p B' = take p B" .
  have d: "drop e B' = Y @ Z" by (simp add: B' lx)
  have "take gs B = take p B @ Y"
    using assms(1) take_add[of p m B] by (simp add: Y_def m_def)
  then show "take p B' @ drop (ge - (gs - p)) B' = take gs B @ drop ge B"
    using t d by (simp add: Z_def e_def m_def)
qed

lemma mem_copy_right:
  assumes "gs \<le> ge" "ge + m \<le> length B"
  defines "B' \<equiv> mem_copy B gs B ge m"
  shows "length B' = length B"
    and "take (gs + m) B' @ drop (ge + m) B' = take gs B @ drop ge B"
proof -
  define X Y Z where "X = take gs B" and "Y = take m (drop ge B)" and "Z = drop (gs + m) B"
  have B': "B' = X @ Y @ Z" by (simp add: B'_def mem_copy_def X_def Y_def Z_def)
  have lx: "length X = gs" using assms(1,2) by (simp add: X_def)
  have ly: "length Y = m" using assms(1,2) by (simp add: Y_def)
  have lz: "length Z = length B - (gs + m)" by (simp add: Z_def)
  show "length B' = length B" using assms(1,2) by (simp add: B' lx ly lz)
  have t: "take (gs + m) B' = X @ Y" by (simp add: B' lx ly)
  have "drop (ge + m) B' = drop (ge - gs) Z"
    using assms(1) by (simp add: B' lx ly)
  also have "\<dots> = drop (ge + m) B" using assms(1) by (simp add: Z_def add.commute)
  finally have d: "drop (ge + m) B' = drop (ge + m) B" .
  have "drop ge B = Y @ drop (ge + m) B"
    unfolding Y_def by (metis append_take_drop_id drop_drop add.commute)
  then show "take (gs + m) B' @ drop (ge + m) B' = take gs B @ drop ge B"
    using t d by (simp add: X_def)
qed


lemma gap_move_clamped:
  "gap_move g p =
     (let pos = clamp_pos g p
      in if pos < gap_start g then
           g\<lparr>buf := mem_copy (buf g) (nat (gap_end g - (gap_start g - pos))) (buf g) (nat pos) (nat (gap_start g - pos)),
             gap_start := pos, gap_end := gap_end g - (gap_start g - pos)\<rparr>
         else if pos > gap_start g then
           g\<lparr>buf := mem_copy (buf g) (nat (gap_start g)) (buf g) (nat (gap_end g)) (nat (pos - gap_start g)),
             gap_start := pos, gap_end := gap_end g + (pos - gap_start g)\<rparr>
         else g)"
  by (simp add: gap_move_def clamp_pos_def Let_def min_def max_def)

lemma gap_ok_nat:
  assumes "gap_ok g"
  obtains gs ge where "gap_start g = int gs" "gap_end g = int ge" "gs \<le> ge" "ge \<le> length (buf g)"
    "cap g = int (length (buf g))"
proof -
  from assms have "0 \<le> gap_start g" "gap_start g \<le> gap_end g" "gap_end g \<le> cap g"
    "int (length (buf g)) = cap g" by (auto simp: gap_ok_def gap_inv_def)
  then show ?thesis
    using that[of "nat (gap_start g)" "nat (gap_end g)"] by auto
qed

lemma gap_move_facts:
  assumes ok: "gap_ok g"
  shows "gap_ok (gap_move g p)" and "content (gap_move g p) = content g"
    and "gap_start (gap_move g p) = clamp_pos g p"
    and "cap (gap_move g p) = cap g"
proof -
  obtain gs ge where n: "gap_start g = int gs" "gap_end g = int ge" "gs \<le> ge"
    "ge \<le> length (buf g)" "cap g = int (length (buf g))"
    using ok by (rule gap_ok_nat)
  have len: "gap_length g = int (length (buf g) - (ge - gs))"
    using n by (simp add: gap_length_def)
  define q where "q = clamp_pos g p"
  have q0: "0 \<le> q" "q \<le> gap_length g" by (auto simp: q_def clamp_pos_def len)
  then obtain k where k: "q = int k" using nonneg_int_cases by blast
  have kl: "k \<le> length (buf g) - (ge - gs)" using q0 k len by simp
  show "gap_start (gap_move g p) = clamp_pos g p"
    by (auto simp: gap_move_clamped Let_def)
  show "cap (gap_move g p) = cap g"
    by (auto simp: gap_move_clamped Let_def)
  consider (L) "k < gs" | (R) "gs < k" | (E) "k = gs" by linarith
  then have "gap_ok (gap_move g p) \<and> content (gap_move g p) = content g"
  proof cases
    case L
    then have le: "k \<le> gs" by simp
    define e where "e = ge - (gs - k)"
    define B' where "B' = mem_copy (buf g) e (buf g) k (gs - k)"
    have nats: "nat (int ge - (int gs - int k)) = e" "nat (int gs - int k) = gs - k"
      "int ge - (int gs - int k) = int e"
      using L n(3) by (auto simp: e_def)
    have gm: "gap_move g p = g\<lparr>buf := B', gap_start := int k, gap_end := int e\<rparr>"
      using L by (simp add: gap_move_clamped q_def[symmetric] k n(1,2) nats Let_def B'_def)
    have B: "length B' = length (buf g)" "take k B' @ drop e B' = take gs (buf g) @ drop ge (buf g)"
      using mem_copy_left[OF le n(3) n(4)] by (simp_all add: B'_def e_def)
    have "k \<le> e" "e \<le> length (buf g)" using L n(3,4) by (auto simp: e_def)
    then show ?thesis
      using B n by (simp add: gm gap_ok_def gap_inv_def content_def)
  next
    case R
    define m where "m = k - gs"
    have km: "k = gs + m" using R by (simp add: m_def)
    have gem: "ge + m \<le> length (buf g)" using kl km n(3,4) by simp
    have gm: "gap_move g p = g\<lparr>buf := mem_copy (buf g) gs (buf g) ge m,
        gap_start := int (gs + m), gap_end := int (ge + m)\<rparr>"
      using R by (simp add: gap_move_clamped q_def[symmetric] k n(1,2) Let_def km)
    have nn: "nat (int gs + int m) = gs + m" "nat (int ge + int m) = ge + m" by simp_all
    show ?thesis
      using mem_copy_right[OF n(3) gem] n gem
      by (simp add: gm gap_ok_def gap_inv_def content_def nn)
  next
    case E
    then have "gap_move g p = g"
      by (simp add: gap_move_clamped q_def[symmetric] k n(1) Let_def)
    then show ?thesis using ok by simp
  qed
  then show "gap_ok (gap_move g p)" and "content (gap_move g p) = content g" by simp_all
qed


lemma gap_grow_facts:
  assumes ok: "gap_ok g" and full: "gap_start g = gap_end g"
  shows "gap_ok (gap_grow g)" and "content (gap_grow g) = content g"
    and "gap_start (gap_grow g) = gap_start g"
    and "gap_end (gap_grow g) = gap_start g + cap g div 2"
    and "cap (gap_grow g) = cap g + cap g div 2"
proof -
  obtain k ge where n: "gap_start g = int k" "gap_end g = int ge" "k \<le> ge"
    "ge \<le> length (buf g)" "cap g = int (length (buf g))"
    using ok by (rule gap_ok_nat)
  have ge: "ge = k" using full n by simp
  define B where "B = buf g"
  define n' where "n' = length B"
  define N where "N = n' + n' div 2"
  define nb where "nb = replicate N (CHR 0x00)"
  define nb1 where "nb1 = (if k \<noteq> 0 then mem_copy nb 0 B 0 k else nb)"
  define nb2 where "nb2 = (if n' - k \<noteq> 0 then mem_copy nb1 (N - (n' - k)) B k (n' - k) else nb1)"
  have kn: "k \<le> n'" using n ge by (simp add: n'_def B_def)
  have capN: "cap g + c_div2 (cap g) = int N"
    by (simp add: n(5) c_div2_def N_def n'_def B_def zdiv_int)
  have suf: "cap g - gap_end g = int (n' - k)" "int N - int (n' - k) = int (N - (n' - k))"
    using kn by (auto simp: n ge n'_def B_def N_def)
  have gg: "gap_grow g = g\<lparr>buf := nb2, cap := int N, gap_end := int (N - (n' - k))\<rparr>"
    unfolding gap_grow_def Let_def capN suf n(1) malloc_def
    by (simp add: nb2_def nb1_def nb_def B_def n(2) ge nat_diff_distrib')
  have l1: "length nb1 = N" using kn by (simp add: nb1_def mem_copy_def nb_def N_def n'_def)
  have t1: "take k nb1 = take k B" using kn by (simp add: nb1_def mem_copy_def n'_def)
  have l2: "length nb2 = N" using kn by (auto simp: nb2_def mem_copy_def l1 N_def n'_def)
  have e: "N - (n' - k) = k + n' div 2" using kn by (simp add: N_def)
  have kN: "k \<le> N - (n' - k)" "N - (n' - k) \<le> N" using e by simp_all
  have t2: "take k nb2 = take k B \<and> drop (N - (n' - k)) nb2 = drop k B"
  proof (cases "n' - k = 0")
    case True
    then have "k = n'" using kn by simp
    then show ?thesis using True t1 by (simp add: nb2_def l1 n'_def N_def)
  next
    case False
    define X where "X = take (N - (n' - k)) nb1"
    define Y where "Y = take (n' - k) (drop k B)"
    have lx: "length X = N - (n' - k)" using kN by (simp add: X_def l1)
    have "N - (n' - k) + (n' - k) = N" using kn by (simp add: N_def)
    then have "nb2 = X @ Y @ drop N nb1"
      using False by (simp add: nb2_def mem_copy_def X_def Y_def)
    then have nb2: "nb2 = X @ Y" by (simp add: l1)
    have "take k nb2 = take k X" using kN(1) by (simp add: nb2 lx)
    also have "\<dots> = take k nb1" using kN(1) by (simp add: X_def min_def)
    finally have a: "take k nb2 = take k B" using t1 by simp
    have "drop (N - (n' - k)) nb2 = Y" by (simp add: nb2 lx)
    then have b: "drop (N - (n' - k)) nb2 = drop k B" by (simp add: Y_def n'_def)
    show ?thesis using a b by simp
  qed
  then have d2: "drop (N - (n' - k)) nb2 = drop k B" and t2': "take k nb2 = take k B" by simp_all
  show "gap_start (gap_grow g) = gap_start g" by (simp add: gg)
  show "cap (gap_grow g) = cap g + cap g div 2"
    by (simp add: gg N_def n(5) n'_def B_def zdiv_int)
  have "int (N - (n' - k)) = int k + int n' div 2" unfolding e by (simp add: zdiv_int)
  then show "gap_end (gap_grow g) = gap_start g + cap g div 2"
    by (simp add: gg n(1,5) n'_def B_def)
  show "gap_ok (gap_grow g)"
    using kn by (simp add: gg gap_ok_def gap_inv_def l2 n(1) e) (simp add: N_def)
  show "content (gap_grow g) = content g"
    by (simp add: gg content_def n(1,2) ge t2' d2 B_def)
qed


lemma gap_put_facts:
  fixes c :: char
  assumes ok: "gap_ok g" and room: "gap_start g < gap_end g"
  defines "g' \<equiv> g\<lparr>buf := (buf g)[nat (gap_start g) := c], gap_start := gap_start g + 1\<rparr>"
  shows "gap_ok g'"
    and "content g' = take (nat (gap_start g)) (content g) @ c # drop (nat (gap_start g)) (content g)"
proof -
  obtain k ge where n: "gap_start g = int k" "gap_end g = int ge" "k \<le> ge"
    "ge \<le> length (buf g)" "cap g = int (length (buf g))"
    using ok by (rule gap_ok_nat)
  have kl: "k < ge" "k < length (buf g)" using room n by auto
  have k1: "nat (int k + 1) = Suc k" by simp
  show "gap_ok g'" using n kl by (simp add: g'_def gap_ok_def gap_inv_def)
  have "take (Suc k) ((buf g)[k := c]) = take k (buf g) @ [c]"
    using kl(2) by (simp add: take_Suc_conv_app_nth)
  moreover have "drop ge ((buf g)[k := c]) = drop ge (buf g)"
    using kl(1) by simp
  moreover have "take k (content g) = take k (buf g)" "drop k (content g) = drop ge (buf g)"
    using kl n by (simp_all add: content_def)
  ultimately show "content g' = take (nat (gap_start g)) (content g) @ c # drop (nat (gap_start g)) (content g)"
    by (simp add: g'_def content_def n(1,2) k1)
qed

lemma gap_insert_facts:
  assumes ok: "gap_ok g" and room: "gap_start g < gap_end g \<or> 2 \<le> cap g"
  shows "gap_ok (gap_insert g c)"
    and "content (gap_insert g c)
         = take (nat (gap_start g)) (content g) @ c # drop (nat (gap_start g)) (content g)"
    and "gap_start (gap_insert g c) = gap_start g + 1"
    and "cap g \<le> cap (gap_insert g c)"
proof -
  define g1 where "g1 = (if gap_start g = gap_end g then gap_grow g else g)"
  have gi: "gap_insert g c = g1\<lparr>buf := (buf g1)[nat (gap_start g1) := c], gap_start := gap_start g1 + 1\<rparr>"
    by (simp add: gap_insert_def g1_def Let_def)
  have g1: "gap_ok g1 \<and> content g1 = content g \<and> gap_start g1 = gap_start g
      \<and> gap_start g1 < gap_end g1 \<and> cap g \<le> cap g1"
  proof (cases "gap_start g = gap_end g")
    case True
    then have "2 \<le> cap g" using room by simp
    then have "0 < cap g div 2" by simp
    moreover have "g1 = gap_grow g" using True by (simp add: g1_def)
    ultimately show ?thesis using gap_grow_facts[OF ok True] by simp
  next
    case False
    then have "g1 = g" by (simp add: g1_def)
    moreover have "gap_start g < gap_end g" using False ok by (simp add: gap_ok_def gap_inv_def)
    ultimately show ?thesis using ok by simp
  qed
  then have ok1: "gap_ok g1" and room1: "gap_start g1 < gap_end g1" by simp_all
  show "gap_ok (gap_insert g c)" unfolding gi by (rule gap_put_facts(1)[OF ok1 room1])
  show "content (gap_insert g c)
         = take (nat (gap_start g)) (content g) @ c # drop (nat (gap_start g)) (content g)"
    unfolding gi using gap_put_facts(2)[OF ok1 room1, of c] g1 by simp
  show "gap_start (gap_insert g c) = gap_start g + 1" using g1 by (simp add: gi)
  show "cap g \<le> cap (gap_insert g c)" using g1 by (simp add: gi)
qed

lemma gap_delete_facts:
  assumes ok: "gap_ok g"
  shows "gap_ok (snd (gap_delete g))"
    and "cap (snd (gap_delete g)) = cap g"
    and "gap_start (snd (gap_delete g)) = gap_start g"
    and "gap_start g < gap_length g \<Longrightarrow> fst (gap_delete g) = 1"
    and "gap_start g < gap_length g \<Longrightarrow> content (snd (gap_delete g))
         = take (nat (gap_start g)) (content g) @ drop (Suc (nat (gap_start g))) (content g)"
    and "gap_length g \<le> gap_start g \<Longrightarrow> gap_delete g = (0, g)"
proof -
  obtain k ge where n: "gap_start g = int k" "gap_end g = int ge" "k \<le> ge"
    "ge \<le> length (buf g)" "cap g = int (length (buf g))"
    using ok by (rule gap_ok_nat)
  show "gap_ok (snd (gap_delete g))" using n by (auto simp: gap_delete_def gap_ok_def gap_inv_def)
  show "cap (snd (gap_delete g)) = cap g" by (simp add: gap_delete_def)
  show "gap_start (snd (gap_delete g)) = gap_start g" by (simp add: gap_delete_def)
  show "gap_length g \<le> gap_start g \<Longrightarrow> gap_delete g = (0, g)"
    using n by (simp add: gap_delete_def gap_length_def)
  assume "gap_start g < gap_length g"
  then have lt: "ge < length (buf g)" using n by (simp add: gap_length_def)
  show "fst (gap_delete g) = 1" using lt n by (simp add: gap_delete_def)
  have "nat (int ge + 1) = Suc ge" by simp
  moreover have "take k (content g) = take k (buf g)" "drop (Suc k) (content g) = drop (Suc ge) (buf g)"
    using n by (simp_all add: content_def)
  ultimately show "content (snd (gap_delete g))
         = take (nat (gap_start g)) (content g) @ drop (Suc (nat (gap_start g))) (content g)"
    using lt n by (simp add: gap_delete_def content_def)
qed

lemma gap_backspace_facts:
  assumes ok: "gap_ok g"
  shows "gap_ok (snd (gap_backspace g))"
    and "0 < gap_start g \<Longrightarrow> fst (gap_backspace g) = 1"
    and "0 < gap_start g \<Longrightarrow> gap_length (snd (gap_backspace g)) = gap_length g - 1"
    and "gap_start g = 0 \<Longrightarrow> gap_backspace g = (0, g)"
  using ok by (auto simp: gap_backspace_def gap_ok_def gap_inv_def gap_length_def)

lemma gap_length_content: "gap_ok g \<Longrightarrow> gap_length g = int (length (content g))"
  by (erule gap_ok_nat) (simp add: gap_length_def content_def)

lemma gap_char_at_content:
  assumes ok: "gap_ok g" and i: "0 \<le> i" "i < gap_length g"
  shows "gap_char_at g i = content g ! nat i"
proof -
  obtain k ge where n: "gap_start g = int k" "gap_end g = int ge" "k \<le> ge"
    "ge \<le> length (buf g)" "cap g = int (length (buf g))"
    using ok by (rule gap_ok_nat)
  obtain j where j: "i = int j" using i(1) nonneg_int_cases by blast
  have lk: "length (take k (buf g)) = k" using n by simp
  show ?thesis
  proof (cases "j < k")
    case True
    then show ?thesis using i n by (simp add: gap_char_at_def content_def j nth_append)
  next
    case False
    then have "nat (int ge + (int j - int k)) = ge + (j - k)" by simp
    moreover have "ge + (j - k) < length (buf g)" using i n False by (simp add: gap_length_def j)
    ultimately show ?thesis
      using i n False by (simp add: gap_char_at_def content_def j nth_append)
  qed
qed

lemma gap_text_content:
  assumes "gap_ok g" shows "gap_text g = content g"
proof (rule nth_equalityI)
  show "length (gap_text g) = length (content g)"
    using gap_length_content[OF assms] by (simp add: gap_text_def)
next
  fix i assume "i < length (gap_text g)"
  then have i: "i < nat (gap_length g)" by (simp add: gap_text_def)
  then have "int i < gap_length g" by simp
  then show "gap_text g ! i = content g ! i"
    using gap_char_at_content[OF assms, of "int i"] i by (simp add: gap_text_def)
qed

lemma gap_get_facts:
  assumes ok: "gap_ok g" and fits: "gap_length g \<le> outcap" and room: "outcap \<le> int (length out)"
  shows "gap_get g out outcap = (gap_length g, content g @ drop (nat (gap_length g)) out)"
proof -
  obtain k ge where n: "gap_start g = int k" "gap_end g = int ge" "k \<le> ge"
    "ge \<le> length (buf g)" "cap g = int (length (buf g))"
    using ok by (rule gap_ok_nat)
  define B where "B = buf g"
  define s where "s = length B - ge"
  define X where "X = take k B"
  define out1 where "out1 = (if k \<noteq> 0 then mem_copy out 0 B 0 k else out)"
  define out2 where "out2 = (if s \<noteq> 0 then mem_copy out1 k B ge s else out1)"
  have L: "gap_length g = int (k + s)" using n by (simp add: gap_length_def s_def B_def)
  have lo: "k + s \<le> length out" using fits room L by simp
  have suf: "cap g - gap_end g = int s" using n by (simp add: s_def B_def)
  have gg: "gap_get g out outcap = (int (k + s), out2)"
    using fits unfolding gap_get_def Let_def suf L n(1)
    by (simp add: out2_def out1_def B_def n(2))
  have lx: "length X = k" using n by (simp add: X_def B_def)
  have o1: "out1 = X @ drop k out" by (simp add: out1_def mem_copy_def X_def)
  have "out2 = X @ drop ge B @ drop (k + s) out"
  proof (cases "s = 0")
    case True
    then have "drop ge B = []" by (simp add: s_def)
    then show ?thesis using True by (simp add: out2_def o1)
  next
    case False
    have "take s (drop ge B) = drop ge B" by (simp add: s_def)
    moreover have "take k out1 = X" by (simp add: o1 lx)
    moreover have "drop (k + s) out1 = drop (k + s) out"
      by (simp add: o1 lx add.commute)
    ultimately show ?thesis using False by (simp add: out2_def mem_copy_def)
  qed
  moreover have "nat (int k + int s) = k + s" by simp
  ultimately show ?thesis by (simp add: gg L content_def n(1,2) X_def B_def)
qed

lemma gap_get_small: "outcap < gap_length g \<Longrightarrow> gap_get g out outcap = (- 1, out)"
  by (simp add: gap_get_def)

section \<open>The structural invariant\<close>

text \<open>
  Every operation keeps the invariant and changes the logical length as expected, except
  that \<open>gap_insert\<close> needs a non-empty gap or a capacity of at least two bytes: the growth
  step adds \<open>cap / 2\<close> bytes, which is nothing for a capacity of one.
\<close>

lemma gap_ops_preserve_invariant:
  assumes ok: "gap_ok g"
  shows "gap_ok (gap_move g p)"
    and "gap_ok (snd (gap_backspace g))"
    and "gap_ok (snd (gap_delete g))"
    and "gap_start g < gap_end g \<or> 2 \<le> cap g \<Longrightarrow> gap_ok (gap_insert g c)"
    and "gap_length (gap_move g p) = gap_length g"
    and "gap_length (gap_insert g c) = gap_length g + 1"
    and "fst (gap_backspace g) = 1 \<Longrightarrow> gap_length (snd (gap_backspace g)) = gap_length g - 1"
    and "fst (gap_delete g) = 1 \<Longrightarrow> gap_length (snd (gap_delete g)) = gap_length g - 1"
proof -
  show "gap_ok (gap_move g p)" by (rule gap_move_facts(1)[OF ok])
  show "gap_ok (snd (gap_backspace g))" by (rule gap_backspace_facts(1)[OF ok])
  show "gap_ok (snd (gap_delete g))" by (rule gap_delete_facts(1)[OF ok])
  show "gap_start g < gap_end g \<or> 2 \<le> cap g \<Longrightarrow> gap_ok (gap_insert g c)"
    by (rule gap_insert_facts(1)[OF ok])
  show "gap_length (gap_move g p) = gap_length g"
    by (simp add: gap_move_clamped Let_def gap_length_def)
  show "gap_length (gap_insert g c) = gap_length g + 1"
    by (simp add: gap_insert_def gap_grow_def Let_def gap_length_def)
  show "fst (gap_backspace g) = 1 \<Longrightarrow> gap_length (snd (gap_backspace g)) = gap_length g - 1"
    by (auto simp: gap_backspace_def gap_length_def split: if_splits)
  show "fst (gap_delete g) = 1 \<Longrightarrow> gap_length (snd (gap_delete g)) = gap_length g - 1"
    by (auto simp: gap_delete_def gap_length_def split: if_splits)
qed

text \<open>
  C7. Every gap buffer operation preserves \<open>0 \<le> gap_start \<le> gap_end \<le> C\<close>. The growth
  path of \<open>gap_insert\<close> does not: a buffer made by \<open>gap_init 1\<close>, filled with one byte and
  with the gap moved to offset 0 satisfies the invariant, and inserting a second byte
  leaves \<open>gap_start = 1 > gap_end = 0\<close>, overwrites the stored byte and makes the logical
  content read \<open>bb\<close>.
\<close>

theorem gap_insert_cap1_breaks_invariant:
  "gap_move (gap_insert (gap_init 1) (CHR ''a'')) 0 = \<lparr>buf = ''a'', cap = 1, gap_start = 0, gap_end = 0\<rparr>
   \<and> gap_ok \<lparr>buf = ''a'', cap = 1, gap_start = 0, gap_end = 0\<rparr>
   \<and> gap_insert \<lparr>buf = ''a'', cap = 1, gap_start = 0, gap_end = 0\<rparr> (CHR ''b'')
       = \<lparr>buf = ''b'', cap = 1, gap_start = 1, gap_end = 0\<rparr>
   \<and> \<not> gap_inv (gap_insert \<lparr>buf = ''a'', cap = 1, gap_start = 0, gap_end = 0\<rparr> (CHR ''b''))
   \<and> gap_text (gap_insert \<lparr>buf = ''a'', cap = 1, gap_start = 0, gap_end = 0\<rparr> (CHR ''b'')) = ''bb''"
proof -
  have ins: "gap_insert \<lparr>buf = ''a'', cap = 1, gap_start = 0, gap_end = 0\<rparr> (CHR ''b'')
       = \<lparr>buf = ''b'', cap = 1, gap_start = 1, gap_end = 0\<rparr>"
    by (simp add: gap_insert_def gap_grow_def malloc_def mem_copy_def c_div2_def Let_def)
  have reach: "gap_move (gap_insert (gap_init 1) (CHR ''a'')) 0
       = \<lparr>buf = ''a'', cap = 1, gap_start = 0, gap_end = 0\<rparr>"
    by (simp add: gap_init_def gap_insert_def gap_move_def gap_length_def malloc_def
        mem_copy_def Let_def)
  have rd: "gap_text \<lparr>buf = ''b'', cap = 1, gap_start = 1, gap_end = 0\<rparr> = ''bb''"
    by code_simp
  show ?thesis
    unfolding ins using reach rd by (simp add: gap_ok_def gap_inv_def)
qed

section \<open>Gap relocation\<close>

text \<open>
  C6. For every well-formed buffer and every integer \<open>p\<close>, \<open>gap_move\<close> clamps \<open>p\<close> into
  \<open>[0, L]\<close> and leaves \<open>gap_start\<close> at the clamped value; the logical length, the capacity,
  every byte read by \<open>gap_char_at\<close>, the logical sequence and what \<open>gap_get\<close> copies into a
  destination of the stated capacity are unchanged, and the structural invariant still holds.
\<close>

theorem gap_move_frame:
  assumes ok: "gap_ok g" and room: "outcap \<le> int (length out)"
  shows "gap_start (gap_move g p) = clamp_pos g p
       \<and> 0 \<le> clamp_pos g p \<and> clamp_pos g p \<le> gap_length g
       \<and> gap_length (gap_move g p) = gap_length g
       \<and> cap (gap_move g p) = cap g
       \<and> gap_inv (gap_move g p)
       \<and> gap_char_at (gap_move g p) i = gap_char_at g i
       \<and> gap_text (gap_move g p) = gap_text g
       \<and> gap_get (gap_move g p) out outcap = gap_get g out outcap"
proof -
  note m = gap_move_facts[OF ok, of p]
  have len: "gap_length (gap_move g p) = gap_length g"
    by (simp add: gap_move_clamped Let_def gap_length_def)
  have L0: "0 \<le> gap_length g" using gap_length_content[OF ok] by simp
  have tx: "gap_text (gap_move g p) = gap_text g"
    using gap_text_content[OF ok] gap_text_content[OF m(1)] m(2) by simp
  have chr: "gap_char_at (gap_move g p) i = gap_char_at g i"
  proof (cases "0 \<le> i \<and> i < gap_length g")
    case True
    then show ?thesis
      using gap_char_at_content[OF ok, of i] gap_char_at_content[OF m(1), of i] m(2) len by simp
  next
    case False
    then show ?thesis using len by (auto simp: gap_char_at_def)
  qed
  have get: "gap_get (gap_move g p) out outcap = gap_get g out outcap"
  proof (cases "outcap < gap_length g")
    case True
    then show ?thesis using len by (simp add: gap_get_small)
  next
    case False
    then have "gap_length g \<le> outcap" by simp
    then show ?thesis
      using gap_get_facts[OF ok _ room] gap_get_facts[OF m(1) _ room] len m(2) by simp
  qed
  show ?thesis
    using m L0 len tx chr get by (simp add: clamp_pos_def gap_ok_def)
qed

theorem gap_move_frame_witness:
  "gap_text (gap_move \<lparr>buf = ''ab__cd'', cap = 6, gap_start = 2, gap_end = 4\<rparr> 1) = ''abcd''
   \<and> gap_start (gap_move \<lparr>buf = ''ab__cd'', cap = 6, gap_start = 2, gap_end = 4\<rparr> 1) = 1
   \<and> gap_get (gap_move \<lparr>buf = ''ab__cd'', cap = 6, gap_start = 2, gap_end = 4\<rparr> 1) ''......'' 6
       = (4, ''abcd..'')"
proof -
  let ?g = "\<lparr>buf = ''ab__cd'', cap = 6, gap_start = 2, gap_end = 4\<rparr>"
  have ok: "gap_ok ?g" by (simp add: gap_ok_def gap_inv_def)
  have room: "(6::int) \<le> int (length ''......'')" by simp
  have t: "gap_text ?g = ''abcd''" by code_simp
  have c: "clamp_pos ?g 1 = 1" by (simp add: clamp_pos_def gap_length_def)
  have gt: "gap_get ?g ''......'' 6 = (4, ''abcd..'')"
    by (simp add: gap_get_def gap_length_def mem_copy_def)
  show ?thesis
    using gap_move_frame[OF ok room, of 1 0] t c gt by simp
qed

section \<open>Materialising the text\<close>

text \<open>
  C3. For a well-formed buffer and a destination holding at least \<open>outcap\<close> bytes:
  when \<open>outcap\<close> is smaller than the logical length, \<open>gap_get\<close> returns \<open>-1\<close> and the
  destination is untouched; otherwise it returns the logical length \<open>L\<close> and the first
  \<open>L\<close> bytes of the destination are the prefix followed by the suffix, which is the
  logical sequence; the bytes after them are untouched.
\<close>

theorem gap_get_explicit_failure:
  assumes ok: "gap_ok g" and room: "outcap \<le> int (length out)"
  shows "gap_get g out outcap =
           (if outcap < gap_length g then (- 1, out)
            else (gap_length g,
                  take (nat (gap_start g)) (buf g) @ drop (nat (gap_end g)) (buf g)
                    @ drop (nat (gap_length g)) out))
         \<and> take (nat (gap_start g)) (buf g) @ drop (nat (gap_end g)) (buf g) = gap_text g
         \<and> int (length (gap_text g)) = gap_length g"
proof (cases "outcap < gap_length g")
  case True
  then show ?thesis
    using gap_text_content[OF ok] gap_length_content[OF ok]
    by (simp add: gap_get_small content_def)
next
  case False
  then have "gap_length g \<le> outcap" by simp
  then show ?thesis
    using gap_get_facts[OF ok _ room] gap_text_content[OF ok] gap_length_content[OF ok] False
    by (simp add: content_def)
qed

theorem gap_get_explicit_failure_witness:
  "gap_get \<lparr>buf = ''ab__cd'', cap = 6, gap_start = 2, gap_end = 4\<rparr> ''...'' 3 = (- 1, ''...'')
   \<and> gap_get \<lparr>buf = ''ab__cd'', cap = 6, gap_start = 2, gap_end = 4\<rparr> ''.....'' 5 = (4, ''abcd.'')"
proof -
  let ?g = "\<lparr>buf = ''ab__cd'', cap = 6, gap_start = 2, gap_end = 4\<rparr>"
  have ok: "gap_ok ?g" by (simp add: gap_ok_def gap_inv_def)
  have r1: "(3::int) \<le> int (length ''...'')" and r2: "(5::int) \<le> int (length ''.....'')" by simp_all
  have L: "gap_length ?g = 4" by (simp add: gap_length_def)
  show ?thesis
    using gap_get_explicit_failure[OF ok r1] gap_get_explicit_failure[OF ok r2] by (simp add: L)
qed

section \<open>Coordinate mapper: the loops\<close>

declare pos_to_rowcol_loop.simps [simp del] rowcol_to_pos_rows.simps [simp del]
  rowcol_to_pos_cols.simps [simp del] get_line_length_loop.simps [simp del]
  count_rows_loop.simps [simp del]

lemma pos_to_rowcol_loop_stop: "p \<le> i \<Longrightarrow> pos_to_rowcol_loop g p i r c = (r, c)"
  by (subst pos_to_rowcol_loop.simps) simp

lemma pos_to_rowcol_loop_step:
  "i < p \<Longrightarrow> pos_to_rowcol_loop g p i r c
     = (if gap_char_at g i = CHR 0x0A then pos_to_rowcol_loop g p (i + 1) (r + 1) 0
        else pos_to_rowcol_loop g p (i + 1) r (c + 1))"
  by (subst pos_to_rowcol_loop.simps) simp

lemma pos_to_rowcol_loop_snoc:
  "i \<le> p \<Longrightarrow> pos_to_rowcol_loop g (p + 1) i r c
     = rc_step (gap_char_at g p) (pos_to_rowcol_loop g p i r c)"
proof (induction g p i r c rule: pos_to_rowcol_loop.induct)
  case (1 g pos i row col)
  show ?case
  proof (cases "i < pos")
    case True
    then show ?thesis
      using 1 by (simp add: pos_to_rowcol_loop_step)
  next
    case False
    then have "i = pos" using 1(3) by simp
    then show ?thesis
      by (simp add: pos_to_rowcol_loop_step pos_to_rowcol_loop_stop rc_step_def)
  qed
qed

lemma pos_to_rowcol_0: "p \<le> 0 \<Longrightarrow> pos_to_rowcol g p = (0, 0)"
  by (simp add: pos_to_rowcol_def pos_to_rowcol_loop_stop)

lemma pos_to_rowcol_Suc:
  "0 \<le> p \<Longrightarrow> pos_to_rowcol g (p + 1) = rc_step (gap_char_at g p) (pos_to_rowcol g p)"
  by (simp add: pos_to_rowcol_def pos_to_rowcol_loop_snoc)


lemma rowcol_to_pos_rows_stop:
  "\<not> (pos < len \<and> cur_row < row) \<Longrightarrow>
   rowcol_to_pos_rows g row len pos cur_row cur_col = (pos, cur_row, cur_col)"
  by (subst rowcol_to_pos_rows.simps) auto

lemma rowcol_to_pos_rows_step:
  "pos < len \<Longrightarrow> cur_row < row \<Longrightarrow>
   rowcol_to_pos_rows g row len pos cur_row cur_col
     = rowcol_to_pos_rows g row len (pos + 1)
         (fst (rc_step (gap_char_at g pos) (cur_row, cur_col)))
         (snd (rc_step (gap_char_at g pos) (cur_row, cur_col)))"
  by (subst rowcol_to_pos_rows.simps) (simp add: rc_step_def)

lemma rowcol_to_pos_cols_stop:
  "\<not> (pos < len \<and> cur_col < col) \<Longrightarrow> rowcol_to_pos_cols g col len pos cur_col = pos"
  by (subst rowcol_to_pos_cols.simps) auto

lemma rowcol_to_pos_cols_step:
  "pos < len \<Longrightarrow> cur_col < col \<Longrightarrow>
   rowcol_to_pos_cols g col len pos cur_col
     = (if gap_char_at g pos = CHR 0x0A then pos
        else rowcol_to_pos_cols g col len (pos + 1) (cur_col + 1))"
  by (subst rowcol_to_pos_cols.simps) simp

lemma pos_to_rowcol_row_mono:
  "0 \<le> p \<Longrightarrow> fst (pos_to_rowcol g p) \<le> fst (pos_to_rowcol g (p + 1))"
  by (simp add: pos_to_rowcol_Suc rc_step_def)

text \<open>
  While the target row is not reached, the first loop of \<open>rowcol_to_pos\<close> walks through
  the states of \<open>pos_to_rowcol\<close>.
\<close>

lemma rowcol_to_pos_rows_run:
  assumes "0 \<le> i" "i \<le> len" "fst (pos_to_rowcol g i) < row"
  shows "rowcol_to_pos_rows g row len 0 0 0
         = rowcol_to_pos_rows g row len i (fst (pos_to_rowcol g i)) (snd (pos_to_rowcol g i))"
  using assms
proof (induction i rule: int_ge_induct)
  case base
  show ?case by (simp add: pos_to_rowcol_0)
next
  case (step i)
  have lt: "fst (pos_to_rowcol g i) < row"
    using pos_to_rowcol_row_mono[OF step(1), of g] step(4) by simp
  have "rowcol_to_pos_rows g row len 0 0 0
         = rowcol_to_pos_rows g row len i (fst (pos_to_rowcol g i)) (snd (pos_to_rowcol g i))"
    using step lt by simp
  also have "\<dots> = rowcol_to_pos_rows g row len (i + 1) (fst (pos_to_rowcol g (i + 1)))
      (snd (pos_to_rowcol g (i + 1)))"
    using step(3) lt step(1) by (simp add: rowcol_to_pos_rows_step pos_to_rowcol_Suc)
  finally show ?case .
qed

lemma rowcol_to_pos_cols_run:
  fixes k :: nat
  assumes "pos + int k \<le> len"
    and "\<forall>j. pos \<le> j \<and> j < pos + int k \<longrightarrow> gap_char_at g j \<noteq> CHR 0x0A"
  shows "rowcol_to_pos_cols g (cc + int k) len pos cc = pos + int k"
  using assms
proof (induction k arbitrary: pos cc)
  case 0
  show ?case by (simp add: rowcol_to_pos_cols_stop)
next
  case (Suc k)
  have a: "pos < len" "cc < cc + int (Suc k)" "gap_char_at g pos \<noteq> CHR 0x0A"
    using Suc.prems by auto
  have "rowcol_to_pos_cols g ((cc + 1) + int k) len (pos + 1) (cc + 1) = (pos + 1) + int k"
    using Suc.prems by (intro Suc.IH) auto
  then show ?case using a by (simp add: rowcol_to_pos_cols_step add.assoc)
qed


text \<open>The line start of a position: where pos_to_rowcol reports column 0 of the same row.\<close>

lemma pos_to_rowcol_line_start:
  assumes "0 \<le> p"
  shows "0 \<le> fst (pos_to_rowcol g p) \<and> 0 \<le> snd (pos_to_rowcol g p) \<and> snd (pos_to_rowcol g p) \<le> p
       \<and> pos_to_rowcol g (p - snd (pos_to_rowcol g p)) = (fst (pos_to_rowcol g p), 0)
       \<and> (\<forall>j. p - snd (pos_to_rowcol g p) \<le> j \<and> j < p \<longrightarrow> gap_char_at g j \<noteq> CHR 0x0A)
       \<and> (if fst (pos_to_rowcol g p) = 0 then snd (pos_to_rowcol g p) = p
          else 1 \<le> p - snd (pos_to_rowcol g p)
             \<and> gap_char_at g (p - snd (pos_to_rowcol g p) - 1) = CHR 0x0A
             \<and> fst (pos_to_rowcol g (p - snd (pos_to_rowcol g p) - 1)) = fst (pos_to_rowcol g p) - 1)"
  using assms
proof (induction p rule: int_ge_induct)
  case base
  show ?case by (auto simp: pos_to_rowcol_0)
next
  case (step p)
  obtain r c where rc: "pos_to_rowcol g p = (r, c)" by (cases "pos_to_rowcol g p")
  note ih = step.IH[unfolded rc fst_conv snd_conv]
  show ?case
  proof (cases "gap_char_at g p = CHR 0x0A")
    case True
    then have n: "pos_to_rowcol g (p + 1) = (r + 1, 0)"
      using step(1) by (simp add: pos_to_rowcol_Suc rc rc_step_def)
    show ?thesis using ih step(1) True by (simp add: n rc)
  next
    case False
    then have n: "pos_to_rowcol g (p + 1) = (r, c + 1)"
      using step(1) by (simp add: pos_to_rowcol_Suc rc rc_step_def)
    have "\<forall>j. p - c \<le> j \<and> j < p + 1 \<longrightarrow> gap_char_at g j \<noteq> CHR 0x0A"
    proof (intro allI impI)
      fix j assume j: "p - c \<le> j \<and> j < p + 1"
      show "gap_char_at g j \<noteq> CHR 0x0A"
      proof (cases "j = p")
        case True then show ?thesis using False by simp
      next
        case False then show ?thesis using ih j by simp
      qed
    qed
    then show ?thesis using ih step(1) by (simp add: n)
  qed
qed

lemma rowcol_to_pos_pos_to_rowcol:
  assumes p: "0 \<le> p" "p \<le> gap_length g"
  shows "rowcol_to_pos g (fst (pos_to_rowcol g p)) (snd (pos_to_rowcol g p)) = p"
proof -
  obtain r c where rc: "pos_to_rowcol g p = (r, c)" by (cases "pos_to_rowcol g p")
  note ls = pos_to_rowcol_line_start[OF p(1), of g, unfolded rc fst_conv snd_conv]
  define len where "len = gap_length g"
  obtain k where k: "c = int k" using ls nonneg_int_cases by blast
  have cols: "rowcol_to_pos_cols g c len (p - c) 0 = p"
    using rowcol_to_pos_cols_run[of "p - c" k len g 0] ls p(2) by (simp add: k len_def)
  have rows: "rowcol_to_pos_rows g r len 0 0 0 = (p - c, r, 0)"
  proof (cases "r = 0")
    case True
    then show ?thesis using ls by (simp add: rowcol_to_pos_rows_stop)
  next
    case False
    define i where "i = p - c - 1"
    have i: "0 \<le> i" "i < len" "gap_char_at g i = CHR 0x0A" "fst (pos_to_rowcol g i) = r - 1"
      using ls False p(2) by (simp_all add: i_def len_def)
    have "rowcol_to_pos_rows g r len 0 0 0
         = rowcol_to_pos_rows g r len i (fst (pos_to_rowcol g i)) (snd (pos_to_rowcol g i))"
      using i by (intro rowcol_to_pos_rows_run) simp_all
    also have "\<dots> = rowcol_to_pos_rows g r len (i + 1) r 0"
      using i by (simp add: rowcol_to_pos_rows_step rc_step_def)
    also have "\<dots> = (i + 1, r, 0)" by (simp add: rowcol_to_pos_rows_stop)
    finally show ?thesis by (simp add: i_def)
  qed
  show ?thesis
    by (simp add: rowcol_to_pos_def Let_def rc len_def[symmetric] rows cols)
qed


lemma count_rows_loop_run:
  assumes "0 \<le> i" "i \<le> len"
  shows "count_rows_loop g len 0 1 = count_rows_loop g len i (1 + fst (pos_to_rowcol g i))"
  using assms
proof (induction i rule: int_ge_induct)
  case base
  show ?case by (simp add: pos_to_rowcol_0)
next
  case (step i)
  have "count_rows_loop g len 0 1 = count_rows_loop g len i (1 + fst (pos_to_rowcol g i))"
    using step by simp
  also have "\<dots> = count_rows_loop g len (i + 1) (1 + fst (pos_to_rowcol g (i + 1)))"
    using step(1,3)
    by (subst count_rows_loop.simps) (simp add: pos_to_rowcol_Suc rc_step_def)
  finally show ?case .
qed

lemma count_rows_eq:
  assumes "0 \<le> gap_length g"
  shows "count_rows g = 1 + fst (pos_to_rowcol g (gap_length g))"
proof -
  have "count_rows g = count_rows_loop g (gap_length g) (gap_length g)
      (1 + fst (pos_to_rowcol g (gap_length g)))"
    using count_rows_loop_run[OF assms, of "gap_length g" g] by (simp add: count_rows_def)
  then show ?thesis by (subst (asm) count_rows_loop.simps) simp
qed

lemma pos_to_rowcol_reaches_row:
  assumes "0 \<le> p"
  shows "0 \<le> r \<and> r \<le> fst (pos_to_rowcol g p) \<longrightarrow>
         (\<exists>q. 0 \<le> q \<and> q \<le> p \<and> pos_to_rowcol g q = (r, 0))"
  using assms
proof (induction p rule: int_ge_induct)
  case base
  show ?case by (auto simp: pos_to_rowcol_0)
next
  case (step p)
  show ?case
  proof (intro impI)
    assume r: "0 \<le> r \<and> r \<le> fst (pos_to_rowcol g (p + 1))"
    show "\<exists>q. 0 \<le> q \<and> q \<le> p + 1 \<and> pos_to_rowcol g q = (r, 0)"
    proof (cases "r \<le> fst (pos_to_rowcol g p)")
      case True
      then obtain q where "0 \<le> q" "q \<le> p" "pos_to_rowcol g q = (r, 0)"
        using step.IH r by blast
      then show ?thesis by (intro exI[of _ q]) simp
    next
      case False
      then have "pos_to_rowcol g (p + 1) = (r, 0)"
        using r step(1) by (auto simp: pos_to_rowcol_Suc rc_step_def split: if_splits)
      then show ?thesis using step(1) by (intro exI[of _ "p + 1"]) simp
    qed
  qed
qed

lemma get_line_length_loop_run:
  "acc \<le> get_line_length_loop g len pos acc
   \<and> (pos \<le> len \<longrightarrow> pos + (get_line_length_loop g len pos acc - acc) \<le> len)
   \<and> (\<forall>j. pos \<le> j \<and> j < pos + (get_line_length_loop g len pos acc - acc)
          \<longrightarrow> gap_char_at g j \<noteq> CHR 0x0A)"
proof (induction g len pos acc rule: get_line_length_loop.induct)
  case (1 g len pos line_len)
  show ?case
  proof (cases "pos < len \<and> gap_char_at g pos \<noteq> CHR 0x0A")
    case True
    then have e: "get_line_length_loop g len pos line_len
        = get_line_length_loop g len (pos + 1) (line_len + 1)"
      by (subst get_line_length_loop.simps) simp
    define res where "res = get_line_length_loop g len (pos + 1) (line_len + 1)"
    have ih: "line_len + 1 \<le> res" "pos + 1 + (res - (line_len + 1)) \<le> len"
      "\<forall>j. pos + 1 \<le> j \<and> j < pos + 1 + (res - (line_len + 1)) \<longrightarrow> gap_char_at g j \<noteq> CHR 0x0A"
      using 1 True by (simp_all add: res_def)
    have "\<forall>j. pos \<le> j \<and> j < pos + (res - line_len) \<longrightarrow> gap_char_at g j \<noteq> CHR 0x0A"
    proof (intro allI impI)
      fix j assume j: "pos \<le> j \<and> j < pos + (res - line_len)"
      show "gap_char_at g j \<noteq> CHR 0x0A"
      proof (cases "j = pos")
        case True then show ?thesis using \<open>pos < len \<and> gap_char_at g pos \<noteq> CHR 0x0A\<close> by simp
      next
        case False
        then have "pos + 1 \<le> j \<and> j < pos + 1 + (res - (line_len + 1))" using j by simp
        then show ?thesis using ih(3) by blast
      qed
    qed
    then show ?thesis using ih(1,2) unfolding e res_def[symmetric] by simp
  next
    case False
    then have "get_line_length_loop g len pos line_len = line_len"
      by (subst get_line_length_loop.simps) auto
    then show ?thesis by auto
  qed
qed

lemma pos_to_rowcol_run:
  fixes k :: nat
  assumes "0 \<le> q" "\<forall>j. q \<le> j \<and> j < q + int k \<longrightarrow> gap_char_at g j \<noteq> CHR 0x0A"
  shows "pos_to_rowcol g (q + int k)
         = (fst (pos_to_rowcol g q), snd (pos_to_rowcol g q) + int k)"
  using assms
proof (induction k)
  case 0
  show ?case by simp
next
  case (Suc k)
  have "pos_to_rowcol g (q + int k) = (fst (pos_to_rowcol g q), snd (pos_to_rowcol g q) + int k)"
    using Suc by simp
  moreover have "gap_char_at g (q + int k) \<noteq> CHR 0x0A" using Suc.prems by simp
  moreover have "pos_to_rowcol g (q + int k + 1)
      = rc_step (gap_char_at g (q + int k)) (pos_to_rowcol g (q + int k))"
    using Suc.prems(1) by (intro pos_to_rowcol_Suc) simp
  ultimately have "pos_to_rowcol g (q + int k + 1)
      = (fst (pos_to_rowcol g q), snd (pos_to_rowcol g q) + int k + 1)"
    by (simp add: rc_step_def)
  moreover have "q + int (Suc k) = q + int k + 1" by simp
  moreover have "snd (pos_to_rowcol g q) + int (Suc k) = snd (pos_to_rowcol g q) + int k + 1"
    by simp
  ultimately show ?case by (simp only:)
qed

lemma pos_to_rowcol_rowcol_to_pos:
  assumes L: "0 \<le> gap_length g"
    and row: "0 \<le> row" "row < count_rows g"
    and col: "0 \<le> col" "col \<le> get_line_length g row"
  shows "pos_to_rowcol g (rowcol_to_pos g row col) = (row, col)"
proof -
  define len where "len = gap_length g"
  have "row \<le> fst (pos_to_rowcol g len)" using row count_rows_eq[OF L] by (simp add: len_def)
  then obtain q where q: "0 \<le> q" "q \<le> len" "pos_to_rowcol g q = (row, 0)"
    using pos_to_rowcol_reaches_row[of len row g] L row(1) by (auto simp: len_def)
  have "rowcol_to_pos g row 0 = q"
    using rowcol_to_pos_pos_to_rowcol[of q g] q by (simp add: len_def)
  then have ll: "get_line_length g row = get_line_length_loop g len q 0"
    by (simp add: get_line_length_def len_def)
  obtain k where k: "col = int k" using col(1) nonneg_int_cases by blast
  have run: "q + get_line_length g row \<le> len"
    "\<forall>j. q \<le> j \<and> j < q + get_line_length g row \<longrightarrow> gap_char_at g j \<noteq> CHR 0x0A"
    using get_line_length_loop_run[of 0 g len q] q(2) by (simp_all add: ll)
  have free: "\<forall>j. q \<le> j \<and> j < q + int k \<longrightarrow> gap_char_at g j \<noteq> CHR 0x0A"
    using run(2) col(2) k by auto
  have P: "pos_to_rowcol g (q + col) = (row, col)"
    using pos_to_rowcol_run[OF q(1) free] q(3) by (simp add: k)
  have "0 \<le> q + col" "q + col \<le> gap_length g" using q col run(1) by (simp_all add: len_def)
  then have "rowcol_to_pos g row col = q + col"
    using rowcol_to_pos_pos_to_rowcol[of "q + col" g] P by simp
  then show ?thesis using P by simp
qed

lemma rowcol_to_pos_rows_bound:
  "pos \<le> len \<Longrightarrow> pos \<le> fst (rowcol_to_pos_rows g row len pos cur_row cur_col)
     \<and> fst (rowcol_to_pos_rows g row len pos cur_row cur_col) \<le> len"
proof (induction g row len pos cur_row cur_col rule: rowcol_to_pos_rows.induct)
  case (1 g row len pos cur_row cur_col)
  show ?case
  proof (cases "pos < len \<and> cur_row < row")
    case True
    then show ?thesis
      using 1 by (subst rowcol_to_pos_rows.simps, subst (2) rowcol_to_pos_rows.simps) auto
  next
    case False
    then show ?thesis using 1(3) by (simp add: rowcol_to_pos_rows_stop)
  qed
qed

lemma rowcol_to_pos_cols_bound:
  "pos \<le> len \<Longrightarrow> pos \<le> rowcol_to_pos_cols g col len pos cur_col
     \<and> rowcol_to_pos_cols g col len pos cur_col \<le> len"
proof (induction g col len pos cur_col rule: rowcol_to_pos_cols.induct)
  case (1 g col len pos cur_col)
  show ?case
  proof (cases "pos < len \<and> cur_col < col")
    case True
    then show ?thesis
      using 1 by (subst rowcol_to_pos_cols.simps, subst (2) rowcol_to_pos_cols.simps) auto
  next
    case False
    then show ?thesis using 1(2) by (simp add: rowcol_to_pos_cols_stop)
  qed
qed

lemma rowcol_to_pos_bounds:
  assumes "0 \<le> gap_length g"
  shows "0 \<le> rowcol_to_pos g row col \<and> rowcol_to_pos g row col \<le> gap_length g"
proof -
  obtain a b c where r: "rowcol_to_pos_rows g row (gap_length g) 0 0 0 = (a, b, c)"
    by (cases "rowcol_to_pos_rows g row (gap_length g) 0 0 0")
  have a: "0 \<le> a" "a \<le> gap_length g"
    using rowcol_to_pos_rows_bound[OF assms, of g row 0 0] by (simp_all add: r)
  show ?thesis
    using rowcol_to_pos_cols_bound[OF a(2), of g col c] a(1)
    by (simp add: rowcol_to_pos_def Let_def r)
qed

lemma rowcol_to_pos_beyond:
  assumes L: "0 \<le> gap_length g" and row: "count_rows g \<le> row"
  shows "rowcol_to_pos g row col = gap_length g"
proof -
  define len where "len = gap_length g"
  have lt: "fst (pos_to_rowcol g len) < row"
    using row count_rows_eq[OF L] by (simp add: len_def)
  have "rowcol_to_pos_rows g row len 0 0 0
         = rowcol_to_pos_rows g row len len (fst (pos_to_rowcol g len)) (snd (pos_to_rowcol g len))"
    using L lt by (intro rowcol_to_pos_rows_run) (simp_all add: len_def)
  also have "\<dots> = (len, fst (pos_to_rowcol g len), snd (pos_to_rowcol g len))"
    by (simp add: rowcol_to_pos_rows_stop)
  finally show ?thesis
    by (simp add: rowcol_to_pos_def Let_def len_def[symmetric] rowcol_to_pos_cols_stop
        split: prod.split)
qed

section \<open>Round trip between offsets and coordinates\<close>

text \<open>
  C2. For every well-formed buffer: converting a position \<open>p\<close> in \<open>[0, L]\<close> with
  \<open>pos_to_rowcol\<close> and back with \<open>rowcol_to_pos\<close> yields \<open>p\<close>; and for every coordinate with
  \<open>0 \<le> row < count_rows\<close> and \<open>0 \<le> col \<le> get_line_length row\<close> (the coordinates of existing
  positions), converting to a position and back yields the same coordinate.
\<close>

theorem rowcol_round_trip:
  assumes ok: "gap_ok g"
  shows "(0 \<le> p \<and> p \<le> gap_length g \<longrightarrow>
            rowcol_to_pos g (fst (pos_to_rowcol g p)) (snd (pos_to_rowcol g p)) = p)
       \<and> (0 \<le> row \<and> row < count_rows g \<and> 0 \<le> col \<and> col \<le> get_line_length g row \<longrightarrow>
            pos_to_rowcol g (rowcol_to_pos g row col) = (row, col))"
proof -
  have L: "0 \<le> gap_length g" using gap_length_content[OF ok] by simp
  show ?thesis
    using rowcol_to_pos_pos_to_rowcol[of p g] pos_to_rowcol_rowcol_to_pos[OF L, of row col]
    by blast
qed

theorem rowcol_round_trip_witness:
  "rowcol_to_pos \<lparr>buf = [CHR ''a'', CHR ''b'', CHR ''_'', CHR ''_'', CHR 0x0A, CHR ''c'', CHR ''d''],
        cap = 7, gap_start = 2, gap_end = 4\<rparr>
     (fst (pos_to_rowcol \<lparr>buf = [CHR ''a'', CHR ''b'', CHR ''_'', CHR ''_'', CHR 0x0A, CHR ''c'', CHR ''d''],
        cap = 7, gap_start = 2, gap_end = 4\<rparr> 3))
     (snd (pos_to_rowcol \<lparr>buf = [CHR ''a'', CHR ''b'', CHR ''_'', CHR ''_'', CHR 0x0A, CHR ''c'', CHR ''d''],
        cap = 7, gap_start = 2, gap_end = 4\<rparr> 3)) = 3
   \<and> pos_to_rowcol \<lparr>buf = [CHR ''a'', CHR ''b'', CHR ''_'', CHR ''_'', CHR 0x0A, CHR ''c'', CHR ''d''],
        cap = 7, gap_start = 2, gap_end = 4\<rparr>
       (rowcol_to_pos \<lparr>buf = [CHR ''a'', CHR ''b'', CHR ''_'', CHR ''_'', CHR 0x0A, CHR ''c'', CHR ''d''],
        cap = 7, gap_start = 2, gap_end = 4\<rparr> 1 1) = (1, 1)
   \<and> pos_to_rowcol \<lparr>buf = [CHR ''a'', CHR ''b'', CHR ''_'', CHR ''_'', CHR 0x0A, CHR ''c'', CHR ''d''],
        cap = 7, gap_start = 2, gap_end = 4\<rparr> 3 = (1, 0)
   \<and> rowcol_to_pos \<lparr>buf = [CHR ''a'', CHR ''b'', CHR ''_'', CHR ''_'', CHR 0x0A, CHR ''c'', CHR ''d''],
        cap = 7, gap_start = 2, gap_end = 4\<rparr> 1 1 = 4"
proof -
  let ?g = "\<lparr>buf = [CHR ''a'', CHR ''b'', CHR ''_'', CHR ''_'', CHR 0x0A, CHR ''c'', CHR ''d''],
        cap = 7, gap_start = 2, gap_end = 4\<rparr>"
  have ok: "gap_ok ?g" by (simp add: gap_ok_def gap_inv_def)
  have L: "gap_length ?g = 5" by (simp add: gap_length_def)
  have cr: "count_rows ?g = 2" by code_simp
  have ll: "get_line_length ?g 1 = 2" by code_simp
  have a: "pos_to_rowcol ?g 3 = (1, 0)" by code_simp
  have b: "rowcol_to_pos ?g 1 1 = 4" by code_simp
  show ?thesis
    using rowcol_round_trip[OF ok, of 3 1 1] a b by (simp add: L cr ll)
qed

section \<open>Range of \<open>rowcol_to_pos\<close>\<close>

text \<open>
  C10, as amended. \<open>rowcol_to_pos\<close> is total and for every well-formed buffer and every integer
  pair, negative or too large, its result lies in \<open>[0, L]\<close>; a row at or beyond the row count
  (beyond the last row) yields \<open>L\<close>.
\<close>

theorem rowcol_to_pos_in_range:
  assumes ok: "gap_ok g"
  shows "0 \<le> rowcol_to_pos g row col \<and> rowcol_to_pos g row col \<le> gap_length g
       \<and> (count_rows g \<le> row \<longrightarrow> rowcol_to_pos g row col = gap_length g)"
proof -
  have L: "0 \<le> gap_length g" using gap_length_content[OF ok] by simp
  show ?thesis
    using rowcol_to_pos_bounds[OF L, of row col] rowcol_to_pos_beyond[OF L, of row col] by blast
qed

theorem rowcol_to_pos_in_range_witness:
  "0 \<le> rowcol_to_pos \<lparr>buf = ''ab'', cap = 2, gap_start = 2, gap_end = 2\<rparr> (- 3) 7
   \<and> rowcol_to_pos \<lparr>buf = ''ab'', cap = 2, gap_start = 2, gap_end = 2\<rparr> (- 3) 7 \<le> 2
   \<and> rowcol_to_pos \<lparr>buf = ''ab'', cap = 2, gap_start = 2, gap_end = 2\<rparr> 1 0 = 2"
proof -
  let ?g = "\<lparr>buf = ''ab'', cap = 2, gap_start = 2, gap_end = 2\<rparr>"
  have ok: "gap_ok ?g" by (simp add: gap_ok_def gap_inv_def)
  have L: "gap_length ?g = 2" by (simp add: gap_length_def)
  have cr: "count_rows ?g = 1" by code_simp
  show ?thesis
    using rowcol_to_pos_in_range[OF ok, of "- 3" 7] rowcol_to_pos_in_range[OF ok, of 1 0]
    by (simp add: L cr)
qed

text \<open>
  The claim as first stated also promises \<open>L\<close> for the last row itself. In the buffer \<open>ab\<close>
  row 0 is the last row, and \<open>rowcol_to_pos 0 0\<close> is 0, not \<open>L = 2\<close>.
\<close>

theorem rowcol_to_pos_last_row_counterexample:
  "gap_ok \<lparr>buf = ''ab'', cap = 2, gap_start = 2, gap_end = 2\<rparr>
   \<and> count_rows \<lparr>buf = ''ab'', cap = 2, gap_start = 2, gap_end = 2\<rparr> - 1 = 0
   \<and> gap_length \<lparr>buf = ''ab'', cap = 2, gap_start = 2, gap_end = 2\<rparr> = 2
   \<and> rowcol_to_pos \<lparr>buf = ''ab'', cap = 2, gap_start = 2, gap_end = 2\<rparr> 0 0 = 0
   \<and> rowcol_to_pos \<lparr>buf = ''ab'', cap = 2, gap_start = 2, gap_end = 2\<rparr> 0 0
       \<noteq> gap_length \<lparr>buf = ''ab'', cap = 2, gap_start = 2, gap_end = 2\<rparr>"
proof -
  let ?g = "\<lparr>buf = ''ab'', cap = 2, gap_start = 2, gap_end = 2\<rparr>"
  have cr: "count_rows ?g = 1" by code_simp
  have r: "rowcol_to_pos ?g 0 0 = 0" by code_simp
  show ?thesis using cr r by (simp add: gap_ok_def gap_inv_def gap_length_def)
qed

section \<open>Undo and redo of typed characters\<close>

lemma replay_snoc: "replay s (es @ [e]) = ins_at (replay s es) e"
  by (induction es arbitrary: s) simp_all

lemma chain_ok_snoc:
  "chain_ok s (es @ [e]) =
     (chain_ok s es \<and> edit_type e = EDIT_INSERT \<and> 0 \<le> edit_pos e
      \<and> edit_pos e \<le> int (length (replay s es)))"
  by (induction es arbitrary: s) auto

lemma clamp_pos_id: "0 \<le> p \<Longrightarrow> p \<le> gap_length g \<Longrightarrow> clamp_pos g p = p"
  by (simp add: clamp_pos_def)

lemma insert_at_facts:
  assumes r: "roomy g" and p: "0 \<le> p" "p \<le> gap_length g"
  shows "roomy (gap_insert (gap_move g p) c)"
    and "content (gap_insert (gap_move g p) c)
         = ins_at (content g) \<lparr>edit_type = t, edit_pos = p, edit_ch = c\<rparr>"
proof -
  have ok: "gap_ok g" and c2: "2 \<le> cap g" using r by (simp_all add: roomy_def)
  note m = gap_move_facts[OF ok, of p]
  have room: "gap_start (gap_move g p) < gap_end (gap_move g p) \<or> 2 \<le> cap (gap_move g p)"
    using m(4) c2 by simp
  note i = gap_insert_facts[OF m(1) room, of c]
  show "roomy (gap_insert (gap_move g p) c)"
    using i(1,4) m(4) c2 by (simp add: roomy_def)
  show "content (gap_insert (gap_move g p) c)
         = ins_at (content g) \<lparr>edit_type = t, edit_pos = p, edit_ch = c\<rparr>"
    using i(2) m(2,3) clamp_pos_id[OF p] by (simp add: ins_at_def)
qed

lemma delete_at_facts:
  assumes r: "roomy g" and p: "0 \<le> edit_pos e" "edit_pos e \<le> int (length s)"
    and c: "content g = ins_at s e"
  shows "roomy (snd (gap_delete (gap_move g (edit_pos e))))"
    and "content (snd (gap_delete (gap_move g (edit_pos e)))) = s"
proof -
  have ok: "gap_ok g" and c2: "2 \<le> cap g" using r by (simp_all add: roomy_def)
  define q where "q = edit_pos e"
  obtain k where k: "q = int k" using p(1) nonneg_int_cases unfolding q_def by blast
  have ks: "k \<le> length s" using p(2) k by (simp add: q_def)
  have L: "gap_length g = int (length s) + 1"
    using gap_length_content[OF ok] ks by (simp add: c ins_at_def q_def[symmetric] k)
  note m = gap_move_facts[OF ok, of q]
  have st: "gap_start (gap_move g q) = q"
    using m(3) clamp_pos_id[of q g] p L by (simp add: q_def)
  have lt: "gap_start (gap_move g q) < gap_length (gap_move g q)"
    using gap_length_content[OF m(1)] gap_length_content[OF ok] m(2) L p(2) st
    by (simp add: q_def)
  note d = gap_delete_facts[OF m(1)]
  show "roomy (snd (gap_delete (gap_move g (edit_pos e))))"
    using d(1,2) m(4) c2 by (simp add: roomy_def q_def)
  have "content (snd (gap_delete (gap_move g q))) = take k (ins_at s e) @ drop (Suc k) (ins_at s e)"
    using d(5)[OF lt] st m(2) c by (simp add: k)
  also have "\<dots> = s" using ks by (simp add: ins_at_def q_def[symmetric] k)
  finally show "content (snd (gap_delete (gap_move g (edit_pos e)))) = s" by (simp add: q_def)
qed


lemma editorInsertChar_facts:
  fixes c :: char
  assumes r: "roomy (gbuf E)"
  defines "e \<equiv> \<lparr>edit_type = EDIT_INSERT, edit_pos = rowcol_to_pos (gbuf E) (cy E) (cx E), edit_ch = c\<rparr>"
  shows "roomy (gbuf (editorInsertChar c E))"
    and "content (gbuf (editorInsertChar c E)) = ins_at (content (gbuf E)) e"
    and "history (editorInsertChar c E)
         = (history E)\<lparr>undoStack := e # undoStack (history E), redoStack := []\<rparr>"
    and "chain_ok (content (gbuf E)) [e]"
proof -
  define p where "p = rowcol_to_pos (gbuf E) (cy E) (cx E)"
  have ok: "gap_ok (gbuf E)" using r by (simp add: roomy_def)
  have L: "gap_length (gbuf E) = int (length (content (gbuf E)))" by (rule gap_length_content[OF ok])
  then have p: "0 \<le> p" "p \<le> gap_length (gbuf E)"
    using rowcol_to_pos_bounds[of "gbuf E" "cy E" "cx E"] by (simp_all add: p_def)
  have g: "gbuf (editorInsertChar c E) = gap_insert (gap_move (gbuf E) p) c"
    by (simp add: editorInsertChar_def Let_def p_def)
  show "roomy (gbuf (editorInsertChar c E))"
    unfolding g by (rule insert_at_facts(1)[OF r p])
  show "content (gbuf (editorInsertChar c E)) = ins_at (content (gbuf E)) e"
    unfolding g e_def p_def[symmetric] by (rule insert_at_facts(2)[OF r p])
  show "history (editorInsertChar c E)
         = (history E)\<lparr>undoStack := e # undoStack (history E), redoStack := []\<rparr>"
    by (simp add: editorInsertChar_def Let_def history_push_def e_def)
  show "chain_ok (content (gbuf E)) [e]"
    using p L by (simp add: e_def p_def)
qed

lemma keypress_undo_parts:
  "history (keypress_undo E) = fst (snd (history_undo (history E) (gbuf E)))"
  "gbuf (keypress_undo E) = snd (snd (history_undo (history E) (gbuf E)))"
  by (simp_all add: keypress_undo_def Let_def split: prod.split)

lemma keypress_redo_parts:
  "history (keypress_redo E) = fst (snd (history_redo (history E) (gbuf E)))"
  "gbuf (keypress_redo E) = snd (snd (history_redo (history E) (gbuf E)))"
  by (simp_all add: keypress_redo_def Let_def split: prod.split)

lemma keypress_undo_insert:
  assumes r: "roomy (gbuf E)" and u: "undoStack (history E) = e # us"
    and e: "edit_type e = EDIT_INSERT" "0 \<le> edit_pos e" "edit_pos e \<le> int (length s)"
    and c: "content (gbuf E) = ins_at s e"
  shows "roomy (gbuf (keypress_undo E))"
    and "content (gbuf (keypress_undo E)) = s"
    and "history (keypress_undo E)
         = (history E)\<lparr>undoStack := us, redoStack := e # redoStack (history E)\<rparr>"
proof -
  have g: "gbuf (keypress_undo E) = snd (gap_delete (gap_move (gbuf E) (edit_pos e)))"
    by (simp add: keypress_undo_parts history_undo_def u e(1) Let_def)
  show "roomy (gbuf (keypress_undo E))"
    unfolding g by (rule delete_at_facts(1)[OF r e(2,3) c])
  show "content (gbuf (keypress_undo E)) = s"
    unfolding g by (rule delete_at_facts(2)[OF r e(2,3) c])
  show "history (keypress_undo E)
         = (history E)\<lparr>undoStack := us, redoStack := e # redoStack (history E)\<rparr>"
    by (simp add: keypress_undo_parts history_undo_def u Let_def)
qed

lemma keypress_redo_insert:
  assumes r: "roomy (gbuf E)" and u: "redoStack (history E) = e # rs"
    and e: "edit_type e = EDIT_INSERT" "0 \<le> edit_pos e"
      "edit_pos e \<le> int (length (content (gbuf E)))"
  shows "roomy (gbuf (keypress_redo E))"
    and "content (gbuf (keypress_redo E)) = ins_at (content (gbuf E)) e"
    and "history (keypress_redo E)
         = (history E)\<lparr>redoStack := rs, undoStack := e # undoStack (history E)\<rparr>"
proof -
  have ok: "gap_ok (gbuf E)" using r by (simp add: roomy_def)
  have p: "edit_pos e \<le> gap_length (gbuf E)" using e(3) gap_length_content[OF ok] by simp
  have g: "gbuf (keypress_redo E) = gap_insert (gap_move (gbuf E) (edit_pos e)) (edit_ch e)"
    by (simp add: keypress_redo_parts history_redo_def u e(1) Let_def)
  have ee: "\<lparr>edit_type = EDIT_INSERT, edit_pos = edit_pos e, edit_ch = edit_ch e\<rparr> = e"
    using e(1) by simp
  show "roomy (gbuf (keypress_redo E))"
    unfolding g by (rule insert_at_facts(1)[OF r e(2) p])
  show "content (gbuf (keypress_redo E)) = ins_at (content (gbuf E)) e"
    unfolding g using insert_at_facts(2)[OF r e(2) p, of "edit_ch e" EDIT_INSERT] ee by simp
  show "history (keypress_redo E)
         = (history E)\<lparr>redoStack := rs, undoStack := e # undoStack (history E)\<rparr>"
    by (simp add: keypress_redo_parts history_redo_def u Let_def)
qed

lemma inserts_chain:
  assumes "roomy (gbuf E)"
  shows "\<exists>es. length es = length cs \<and> chain_ok (content (gbuf E)) es
          \<and> roomy (gbuf (fold editorInsertChar cs E))
          \<and> content (gbuf (fold editorInsertChar cs E)) = replay (content (gbuf E)) es
          \<and> undoStack (history (fold editorInsertChar cs E)) = rev es @ undoStack (history E)
          \<and> redoStack (history (fold editorInsertChar cs E))
              = (if cs = [] then redoStack (history E) else [])
          \<and> grouping (history (fold editorInsertChar cs E)) = grouping (history E)"
  using assms
proof (induction cs arbitrary: E)
  case Nil
  show ?case using Nil by (intro exI[of _ "[]"]) simp
next
  case (Cons c cs)
  define e where "e = \<lparr>edit_type = EDIT_INSERT, edit_pos = rowcol_to_pos (gbuf E) (cy E) (cx E), edit_ch = c\<rparr>"
  define E1 where "E1 = editorInsertChar c E"
  note f = editorInsertChar_facts[OF Cons.prems, of c, folded e_def E1_def]
  obtain es where es: "length es = length cs" "chain_ok (content (gbuf E1)) es"
      "roomy (gbuf (fold editorInsertChar cs E1))"
      "content (gbuf (fold editorInsertChar cs E1)) = replay (content (gbuf E1)) es"
      "undoStack (history (fold editorInsertChar cs E1)) = rev es @ undoStack (history E1)"
      "redoStack (history (fold editorInsertChar cs E1))
              = (if cs = [] then redoStack (history E1) else [])"
      "grouping (history (fold editorInsertChar cs E1)) = grouping (history E1)"
    using Cons.IH[OF f(1)] by blast
  show ?case
    using es f by (intro exI[of _ "e # es"]) (auto simp: E1_def[symmetric])
qed

lemma undo_chain:
  assumes "roomy (gbuf E)" "chain_ok s es" "content (gbuf E) = replay s es"
    "undoStack (history E) = rev es @ us"
  shows "roomy (gbuf ((keypress_undo ^^ length es) E))
       \<and> content (gbuf ((keypress_undo ^^ length es) E)) = s
       \<and> history ((keypress_undo ^^ length es) E)
           = (history E)\<lparr>undoStack := us, redoStack := es @ redoStack (history E)\<rparr>"
  using assms
proof (induction es arbitrary: E rule: rev_induct)
  case Nil
  then show ?case by simp
next
  case (snoc e es)
  define E1 where "E1 = keypress_undo E"
  have ch: "chain_ok s es" "edit_type e = EDIT_INSERT" "0 \<le> edit_pos e"
    "edit_pos e \<le> int (length (replay s es))"
    using snoc.prems(2) by (simp_all add: chain_ok_snoc)
  have u: "undoStack (history E) = e # (rev es @ us)" using snoc.prems(4) by simp
  have c: "content (gbuf E) = ins_at (replay s es) e" using snoc.prems(3) by (simp add: replay_snoc)
  note k = keypress_undo_insert[OF snoc.prems(1) u ch(2,3,4) c, folded E1_def]
  have "undoStack (history E1) = rev es @ us" by (simp add: k(3))
  note ih = snoc.IH[OF k(1) ch(1) k(2) this]
  have "(keypress_undo ^^ length (es @ [e])) E = (keypress_undo ^^ length es) E1"
    by (simp add: E1_def funpow_swap1)
  then show ?case using ih by (simp add: k(3))
qed

lemma redo_chain:
  assumes "roomy (gbuf E)" "chain_ok (content (gbuf E)) es" "redoStack (history E) = es @ rs"
  shows "roomy (gbuf ((keypress_redo ^^ length es) E))
       \<and> content (gbuf ((keypress_redo ^^ length es) E)) = replay (content (gbuf E)) es
       \<and> history ((keypress_redo ^^ length es) E)
           = (history E)\<lparr>redoStack := rs, undoStack := rev es @ undoStack (history E)\<rparr>"
  using assms
proof (induction es arbitrary: E)
  case Nil
  then show ?case by simp
next
  case (Cons e es)
  define E1 where "E1 = keypress_redo E"
  have ch: "edit_type e = EDIT_INSERT" "0 \<le> edit_pos e"
    "edit_pos e \<le> int (length (content (gbuf E)))" "chain_ok (ins_at (content (gbuf E)) e) es"
    using Cons.prems(2) by simp_all
  have u: "redoStack (history E) = e # (es @ rs)" using Cons.prems(3) by simp
  note k = keypress_redo_insert[OF Cons.prems(1) u ch(1,2,3), folded E1_def]
  have "chain_ok (content (gbuf E1)) es" using ch(4) k(2) by simp
  moreover have "redoStack (history E1) = es @ rs" by (simp add: k(3))
  ultimately have ih: "roomy (gbuf ((keypress_redo ^^ length es) E1))
       \<and> content (gbuf ((keypress_redo ^^ length es) E1)) = replay (content (gbuf E1)) es
       \<and> history ((keypress_redo ^^ length es) E1)
           = (history E1)\<lparr>redoStack := rs, undoStack := rev es @ undoStack (history E1)\<rparr>"
    using Cons.IH[OF k(1)] by blast
  have "(keypress_redo ^^ length (e # es)) E = (keypress_redo ^^ length es) E1"
    by (simp add: E1_def funpow_swap1)
  then show ?case using ih by (simp add: k(2,3))
qed

text \<open>
  C1. For every well-formed buffer (of capacity at least two) with any content, any cursor
  and any history, and every sequence \<open>cs\<close> of \<open>N\<close> characters typed with \<open>editorInsertChar\<close>:
  \<open>N\<close> undo operations restore the logical content (and the undo stack) of the state before
  the inserts, and \<open>N\<close> further redo operations restore the logical content and the whole
  history of the state after the inserts.
\<close>

theorem undo_redo_inserts:
  assumes ok: "gap_ok (gbuf E)" and c2: "2 \<le> cap (gbuf E)"
  shows "gap_text (gbuf ((keypress_undo ^^ length cs) (fold editorInsertChar cs E)))
           = gap_text (gbuf E)
       \<and> undoStack (history ((keypress_undo ^^ length cs) (fold editorInsertChar cs E)))
           = undoStack (history E)
       \<and> gap_text (gbuf ((keypress_redo ^^ length cs) ((keypress_undo ^^ length cs)
             (fold editorInsertChar cs E))))
           = gap_text (gbuf (fold editorInsertChar cs E))
       \<and> history ((keypress_redo ^^ length cs) ((keypress_undo ^^ length cs)
             (fold editorInsertChar cs E)))
           = history (fold editorInsertChar cs E)"
proof -
  define A where "A = fold editorInsertChar cs E"
  define U where "U = (keypress_undo ^^ length cs) A"
  define R where "R = (keypress_redo ^^ length cs) U"
  have r: "roomy (gbuf E)" using ok c2 by (simp add: roomy_def)
  obtain es where es: "length es = length cs" "chain_ok (content (gbuf E)) es"
      "roomy (gbuf A)" "content (gbuf A) = replay (content (gbuf E)) es"
      "undoStack (history A) = rev es @ undoStack (history E)"
      "redoStack (history A) = (if cs = [] then redoStack (history E) else [])"
    using inserts_chain[OF r, of cs] unfolding A_def by blast
  have u: "roomy (gbuf U)" "content (gbuf U) = content (gbuf E)"
    "history U = (history A)\<lparr>undoStack := undoStack (history E),
        redoStack := es @ redoStack (history A)\<rparr>"
    using undo_chain[OF es(3) es(2) es(4) es(5)] by (simp_all add: U_def es(1))
  have "chain_ok (content (gbuf U)) es" using es(2) u(2) by simp
  moreover have "redoStack (history U) = es @ redoStack (history A)" by (simp add: u(3))
  ultimately have rd: "roomy (gbuf R)" "content (gbuf R) = replay (content (gbuf U)) es"
    "history R = (history U)\<lparr>redoStack := redoStack (history A),
        undoStack := rev es @ undoStack (history U)\<rparr>"
    using redo_chain[OF u(1), of es "redoStack (history A)"] by (simp_all add: R_def es(1))
  have t1: "gap_text (gbuf U) = gap_text (gbuf E)"
    using gap_text_content u(1,2) ok by (simp add: roomy_def)
  have t2: "gap_text (gbuf R) = gap_text (gbuf A)"
    using gap_text_content rd(1,2) es(3,4) u(2) by (simp add: roomy_def)
  have h1: "undoStack (history U) = undoStack (history E)" by (simp add: u(3))
  have h2: "history R = history A" by (simp add: rd(3) u(3) es(5))
  show ?thesis using t1 t2 h1 h2 unfolding R_def U_def A_def by simp
qed

theorem undo_redo_inserts_witness:
  "gap_text (gbuf (fold editorInsertChar ''X''
      \<lparr>cx = 1, cy = 0, dirty = 0, history = history_init,
        sel = \<lparr>active = 0, start_row = 0, start_col = 0, end_row = 0, end_col = 0\<rparr>,
        clip = \<lparr>clip_data = None, clip_len = 0\<rparr>,
        gbuf = \<lparr>buf = ''abc..'', cap = 5, gap_start = 3, gap_end = 5\<rparr>\<rparr>)) = ''aXbc''
   \<and> gap_text (gbuf ((keypress_undo ^^ 1) (fold editorInsertChar ''X''
      \<lparr>cx = 1, cy = 0, dirty = 0, history = history_init,
        sel = \<lparr>active = 0, start_row = 0, start_col = 0, end_row = 0, end_col = 0\<rparr>,
        clip = \<lparr>clip_data = None, clip_len = 0\<rparr>,
        gbuf = \<lparr>buf = ''abc..'', cap = 5, gap_start = 3, gap_end = 5\<rparr>\<rparr>))) = ''abc''
   \<and> gap_text (gbuf ((keypress_redo ^^ 1) ((keypress_undo ^^ 1) (fold editorInsertChar ''X''
      \<lparr>cx = 1, cy = 0, dirty = 0, history = history_init,
        sel = \<lparr>active = 0, start_row = 0, start_col = 0, end_row = 0, end_col = 0\<rparr>,
        clip = \<lparr>clip_data = None, clip_len = 0\<rparr>,
        gbuf = \<lparr>buf = ''abc..'', cap = 5, gap_start = 3, gap_end = 5\<rparr>\<rparr>)))) = ''aXbc''"
proof -
  let ?E = "\<lparr>cx = 1, cy = 0, dirty = 0, history = history_init,
        sel = \<lparr>active = 0, start_row = 0, start_col = 0, end_row = 0, end_col = 0\<rparr>,
        clip = \<lparr>clip_data = None, clip_len = 0\<rparr>,
        gbuf = \<lparr>buf = ''abc..'', cap = 5, gap_start = 3, gap_end = 5\<rparr>\<rparr>"
  have ok: "gap_ok (gbuf ?E)" by (simp add: gap_ok_def gap_inv_def)
  have c2: "2 \<le> cap (gbuf ?E)" by simp
  have a: "gap_text (gbuf ?E) = ''abc''" by code_simp
  have b: "gap_text (gbuf (fold editorInsertChar ''X'' ?E)) = ''aXbc''" by code_simp
  have n: "length ''X'' = 1" by simp
  show ?thesis
    using undo_redo_inserts[OF ok c2, of "''X''"] unfolding n a b by simp
qed

section \<open>Paste\<close>

text \<open>
  What \<open>clipboard_paste\<close> does on a well-formed buffer: an empty clipboard changes nothing;
  otherwise the clipboard bytes are inserted in order at the cursor offset, one insert record
  per byte with consecutive positions is pushed, the buffer is marked dirty, and the cursor
  fields \<open>cx\<close> and \<open>cy\<close> stay as they were.
\<close>

declare clipboard_paste_loop.simps [simp del]

lemma clipboard_paste_loop_facts:
  fixes d :: string
  assumes "roomy g" "i \<le> length d" "gap_start g = pos + int i"
  shows "roomy (snd (clipboard_paste_loop d (int (length d)) pos (int i) h g))
       \<and> content (snd (clipboard_paste_loop d (int (length d)) pos (int i) h g))
           = take (nat (pos + int i)) (content g) @ drop i d @ drop (nat (pos + int i)) (content g)
       \<and> undoStack (fst (clipboard_paste_loop d (int (length d)) pos (int i) h g))
           = rev (map (\<lambda>j. \<lparr>edit_type = EDIT_INSERT, edit_pos = pos + int j, edit_ch = d ! j\<rparr>)
                   [i ..< length d]) @ undoStack h
       \<and> redoStack (fst (clipboard_paste_loop d (int (length d)) pos (int i) h g))
           = (if i < length d then [] else redoStack h)
       \<and> grouping (fst (clipboard_paste_loop d (int (length d)) pos (int i) h g)) = grouping h"
  using assms
proof (induction "length d - i" arbitrary: i h g)
  case 0
  then have i: "i = length d" by simp
  have "clipboard_paste_loop d (int (length d)) pos (int i) h g = (h, g)"
    by (subst clipboard_paste_loop.simps) (simp add: i)
  then show ?case using 0 by (simp add: i)
next
  case (Suc n)
  then have lt: "i < length d" by simp
  define c where "c = d ! i"
  define g1 where "g1 = gap_insert g c"
  define h1 where "h1 = history_push h EDIT_INSERT (pos + int i) c"
  have ok: "gap_ok g" and c2: "2 \<le> cap g" using Suc.prems(1) by (simp_all add: roomy_def)
  have room: "gap_start g < gap_end g \<or> 2 \<le> cap g" using c2 by simp
  note gi = gap_insert_facts[OF ok room, of c, folded g1_def]
  have r1: "roomy g1" using gi(1,4) c2 by (simp add: roomy_def)
  have s1: "gap_start g1 = pos + int (Suc i)" using gi(3) Suc.prems(3) by simp
  have st: "clipboard_paste_loop d (int (length d)) pos (int i) h g
      = clipboard_paste_loop d (int (length d)) pos (int (Suc i)) h1 g1"
    using lt by (subst clipboard_paste_loop.simps) (simp add: c_def g1_def h1_def add.commute)
  have n: "n = length d - Suc i" using Suc(2) by simp
  have le: "Suc i \<le> length d" using lt by simp
  note ih = Suc(1)[OF n r1 le s1, of h1]
  obtain k where k: "pos + int i = int k"
    using ok Suc.prems(3) nonneg_int_cases[of "gap_start g"] by (auto simp: gap_ok_def gap_inv_def)
  have kl: "k \<le> length (content g)"
    using gap_length_content[OF ok] ok Suc.prems(3) k
    by (simp add: gap_ok_def gap_inv_def gap_length_def)
  have k1: "nat (pos + int (Suc i)) = Suc k" using k by simp
  have c1: "content g1 = take k (content g) @ c # drop k (content g)"
    using gi(2) Suc.prems(3) k by simp
  have "take (Suc k) (content g1) @ drop (Suc i) d @ drop (Suc k) (content g1)
      = take k (content g) @ (c # drop (Suc i) d) @ drop k (content g)"
    using kl by (simp add: c1)
  also have "c # drop (Suc i) d = drop i d" using lt by (simp add: c_def Cons_nth_drop_Suc)
  finally have cont: "take (Suc k) (content g1) @ drop (Suc i) d @ drop (Suc k) (content g1)
      = take k (content g) @ drop i d @ drop k (content g)" .
  have up: "[i ..< length d] = i # [Suc i ..< length d]" using lt by (simp add: upt_conv_Cons)
  have hs: "undoStack h1 = \<lparr>edit_type = EDIT_INSERT, edit_pos = pos + int i, edit_ch = d ! i\<rparr> # undoStack h"
    "redoStack h1 = []" "grouping h1 = grouping h"
    by (simp_all add: h1_def history_push_def c_def)
  show ?case
    unfolding st using ih lt cont by (simp add: k1 k up hs del: of_nat_Suc)
qed

lemma clipboard_paste_empty:
  "clip_data cl = None \<or> clip_len cl = 0 \<Longrightarrow> clipboard_paste cl E = E"
  by (auto simp: clipboard_paste_def split: option.split)

lemma clipboard_paste_facts:
  fixes d :: string
  assumes r: "roomy (gbuf E)" and cl: "clip_data cl = Some d" "clip_len cl = int (length d)" "d \<noteq> []"
  defines "p \<equiv> rowcol_to_pos (gbuf E) (cy E) (cx E)"
  shows "content (gbuf (clipboard_paste cl E))
           = take (nat p) (content (gbuf E)) @ d @ drop (nat p) (content (gbuf E))"
    and "undoStack (history (clipboard_paste cl E))
           = rev (map (\<lambda>j. \<lparr>edit_type = EDIT_INSERT, edit_pos = p + int j, edit_ch = d ! j\<rparr>)
                   [0 ..< length d]) @ undoStack (history E)"
    and "redoStack (history (clipboard_paste cl E)) = []"
    and "cx (clipboard_paste cl E) = cx E" and "cy (clipboard_paste cl E) = cy E"
    and "dirty (clipboard_paste cl E) = 1"
proof -
  have ok: "gap_ok (gbuf E)" and c2: "2 \<le> cap (gbuf E)" using r by (simp_all add: roomy_def)
  have L: "0 \<le> gap_length (gbuf E)" using gap_length_content[OF ok] by simp
  have pb: "0 \<le> p" "p \<le> gap_length (gbuf E)"
    using rowcol_to_pos_bounds[OF L, of "cy E" "cx E"] by (simp_all add: p_def)
  define g1 where "g1 = gap_move (gbuf E) p"
  note m = gap_move_facts[OF ok, of p, folded g1_def]
  have r1: "roomy g1" using m(1,4) c2 by (simp add: roomy_def)
  have s1: "gap_start g1 = p + int 0" using m(3) clamp_pos_id[OF pb] by simp
  define res where "res = clipboard_paste_loop d (int (length d)) p (int 0) (history E) g1"
  note lf = clipboard_paste_loop_facts[OF r1 _ s1, of d "history E", folded res_def]
  have cp: "clipboard_paste cl E = E\<lparr>gbuf := snd res, history := fst res, dirty := 1\<rparr>"
    using cl by (simp add: clipboard_paste_def Let_def p_def[symmetric] g1_def[symmetric]
        res_def split: prod.split)
  show "content (gbuf (clipboard_paste cl E))
           = take (nat p) (content (gbuf E)) @ d @ drop (nat p) (content (gbuf E))"
    using lf m(2) by (simp add: cp)
  show "undoStack (history (clipboard_paste cl E))
           = rev (map (\<lambda>j. \<lparr>edit_type = EDIT_INSERT, edit_pos = p + int j, edit_ch = d ! j\<rparr>)
                   [0 ..< length d]) @ undoStack (history E)"
    using lf by (simp add: cp)
  show "redoStack (history (clipboard_paste cl E)) = []"
    using lf cl(3) by (simp add: cp)
  show "cx (clipboard_paste cl E) = cx E" "cy (clipboard_paste cl E) = cy E"
    "dirty (clipboard_paste cl E) = 1"
    by (simp_all add: cp)
qed

text \<open>
  C5. Paste of a non-empty clipboard inserts the bytes, pushes one insert record per byte and
  advances the cursor by the number of bytes pasted. The code does the first two and leaves
  the cursor where it was: pasting \<open>ab\<close> into an empty buffer at \<open>(0, 0)\<close> gives the text \<open>ab\<close>
  and the records for offsets 0 and 1, with the cursor still at \<open>(0, 0)\<close>, where typing the
  same two bytes with \<open>editorInsertChar\<close> moves it to column 2.
\<close>

theorem clipboard_paste_leaves_cursor:
  "gap_text (gbuf (clipboard_paste \<lparr>clip_data = Some ''ab'', clip_len = 2\<rparr>
      \<lparr>cx = 0, cy = 0, dirty = 0, history = history_init,
        sel = \<lparr>active = 0, start_row = 0, start_col = 0, end_row = 0, end_col = 0\<rparr>,
        clip = \<lparr>clip_data = Some ''ab'', clip_len = 2\<rparr>,
        gbuf = gap_init 4\<rparr>)) = ''ab''
   \<and> undoStack (history (clipboard_paste \<lparr>clip_data = Some ''ab'', clip_len = 2\<rparr>
      \<lparr>cx = 0, cy = 0, dirty = 0, history = history_init,
        sel = \<lparr>active = 0, start_row = 0, start_col = 0, end_row = 0, end_col = 0\<rparr>,
        clip = \<lparr>clip_data = Some ''ab'', clip_len = 2\<rparr>,
        gbuf = gap_init 4\<rparr>))
       = [\<lparr>edit_type = EDIT_INSERT, edit_pos = 1, edit_ch = CHR ''b''\<rparr>,
          \<lparr>edit_type = EDIT_INSERT, edit_pos = 0, edit_ch = CHR ''a''\<rparr>]
   \<and> cx (clipboard_paste \<lparr>clip_data = Some ''ab'', clip_len = 2\<rparr>
      \<lparr>cx = 0, cy = 0, dirty = 0, history = history_init,
        sel = \<lparr>active = 0, start_row = 0, start_col = 0, end_row = 0, end_col = 0\<rparr>,
        clip = \<lparr>clip_data = Some ''ab'', clip_len = 2\<rparr>,
        gbuf = gap_init 4\<rparr>) = 0
   \<and> cy (clipboard_paste \<lparr>clip_data = Some ''ab'', clip_len = 2\<rparr>
      \<lparr>cx = 0, cy = 0, dirty = 0, history = history_init,
        sel = \<lparr>active = 0, start_row = 0, start_col = 0, end_row = 0, end_col = 0\<rparr>,
        clip = \<lparr>clip_data = Some ''ab'', clip_len = 2\<rparr>,
        gbuf = gap_init 4\<rparr>) = 0
   \<and> cx (fold editorInsertChar ''ab''
      \<lparr>cx = 0, cy = 0, dirty = 0, history = history_init,
        sel = \<lparr>active = 0, start_row = 0, start_col = 0, end_row = 0, end_col = 0\<rparr>,
        clip = \<lparr>clip_data = Some ''ab'', clip_len = 2\<rparr>,
        gbuf = gap_init 4\<rparr>) = 2"
proof -
  let ?E = "\<lparr>cx = 0, cy = 0, dirty = 0, history = history_init,
        sel = \<lparr>active = 0, start_row = 0, start_col = 0, end_row = 0, end_col = 0\<rparr>,
        clip = \<lparr>clip_data = Some ''ab'', clip_len = 2\<rparr>,
        gbuf = gap_init 4\<rparr>"
  let ?c = "\<lparr>clip_data = Some ''ab'', clip_len = 2\<rparr>"
  have a: "gap_text (gbuf (clipboard_paste ?c ?E)) = ''ab''" by code_simp
  have b: "undoStack (history (clipboard_paste ?c ?E))
       = [\<lparr>edit_type = EDIT_INSERT, edit_pos = 1, edit_ch = CHR ''b''\<rparr>,
          \<lparr>edit_type = EDIT_INSERT, edit_pos = 0, edit_ch = CHR ''a''\<rparr>]" by code_simp
  have c: "cx (clipboard_paste ?c ?E) = 0" "cy (clipboard_paste ?c ?E) = 0"
    by (simp_all add: clipboard_paste_def Let_def split: prod.split)
  have d: "cx (fold editorInsertChar ''ab'' ?E) = 2" by (simp add: editorInsertChar_def Let_def)
  show ?thesis using a b c d by simp
qed

section \<open>A new edit clears the redo stack\<close>

text \<open>
  C4. Pushing any edit record empties the redo stack. After an undo followed by the push of
  a new insert record, \<open>history_redo\<close> returns 0 and leaves the history and the buffer as they
  are, whatever the buffer is; in particular after \<open>keypress_undo\<close> and \<open>editorInsertChar\<close>
  the redo key changes neither history, buffer nor cursor.
\<close>

theorem history_push_clears_redo:
  "redoStack (history_push h t p c) = []
   \<and> history_redo (history_push (fst (snd (history_undo h g))) EDIT_INSERT p c) g'
       = (0, history_push (fst (snd (history_undo h g))) EDIT_INSERT p c, g')
   \<and> history_redo (history (editorInsertChar c (keypress_undo E)))
         (gbuf (editorInsertChar c (keypress_undo E)))
       = (0, history (editorInsertChar c (keypress_undo E)),
             gbuf (editorInsertChar c (keypress_undo E)))
   \<and> keypress_redo (editorInsertChar c (keypress_undo E))
       = (editorInsertChar c (keypress_undo E))
           \<lparr>sel := selection_clear (sel (editorInsertChar c (keypress_undo E)))\<rparr>"
  by (simp add: history_push_def history_redo_def editorInsertChar_def keypress_redo_def Let_def)

section \<open>String state of the highlight classifier\<close>

text \<open>
  C9, as amended. The in-string state of \<open>get_highlight\<close> is toggled by every double quote it
  classifies, escaped or not: a call flips the state exactly when the position lies inside the
  snapshot of a C-family file and holds a double quote, whatever byte precedes it, and leaves
  the state unchanged in every other case.
\<close>

theorem get_highlight_string_toggle:
  "snd (get_highlight snapshot len pos filename in_string)
   = (if pos < len \<and> is_c_file filename \<and> snapshot ! nat pos = CHR 0x22
      then \<not> in_string else in_string)"
  by (simp add: get_highlight_def Let_def c_isdigit_def)

text \<open>
  The claim as first stated says that a double quote preceded by a backslash does not flip the
  state. In the two-byte snapshot of a backslash and a double quote, classified from the
  beginning with the state off, the first call leaves the state off and the call on the
  escaped quote turns it on.
\<close>

theorem get_highlight_escaped_quote_counterexample:
  "is_c_file (Some ''a.c'')
   \<and> [CHR 0x5C, CHR 0x22] ! 0 = CHR 0x5C \<and> [CHR 0x5C, CHR 0x22] ! 1 = CHR 0x22
   \<and> get_highlight [CHR 0x5C, CHR 0x22] 2 0 (Some ''a.c'') False = (HL_NORMAL, False)
   \<and> get_highlight [CHR 0x5C, CHR 0x22] 2 1 (Some ''a.c'') False = (HL_STRING, True)"
  by (simp add: get_highlight_def Let_def c_isdigit_def is_c_file_def hl_keywords_def)

section \<open>Selection containment\<close>

text \<open>
  C8. Selection containment is order-independent: the selection built by begin(A); extend(B)
  and the one built by begin(B); extend(A) give the same \<open>selection_contains\<close> answer at every
  coordinate, whatever selection structure they are built in.
\<close>

theorem selection_contains_order_independent:
  "selection_contains (selection_update (selection_start s1 ar ac) br bc) row col
   = selection_contains (selection_update (selection_start s2 br bc) ar ac) row col"
  by (auto simp: selection_contains_def selection_update_def selection_start_def Let_def)

end
